theory Spec2Isabelle
  imports Main "HOL-Library.Word"
begin

unbundle bit_operations_syntax

section \<open>The TAP state machine (JTAGStateMachine)\<close>

text \<open>
  The sixteen TAP states are the keys of \<open>stateTransitions\<close> in the constructor of
  \<open>JTAGStateMachine\<close>. A TMS value is a JavaScript number; the table has the keys
  \<open>0\<close> and \<open>1\<close> only, so a lookup with any other number is \<open>undefined\<close>
  (\<open>None\<close> here).
\<close>

datatype tap_state =
    RESET | IDLE
  | DRSELECT | DRCAPTURE | DRSHIFT | DREXIT1 | DRPAUSE | DREXIT2 | DRUPDATE
  | IRSELECT | IRCAPTURE | IRSHIFT | IREXIT1 | IRPAUSE | IREXIT2 | IRUPDATE

fun transitionRow :: "tap_state \<Rightarrow> tap_state \<times> tap_state" where
  "transitionRow RESET = (IDLE, RESET)"
| "transitionRow IDLE = (IDLE, DRSELECT)"
| "transitionRow DRSELECT = (DRCAPTURE, IRSELECT)"
| "transitionRow DRCAPTURE = (DRSHIFT, DREXIT1)"
| "transitionRow DRSHIFT = (DRSHIFT, DREXIT1)"
| "transitionRow DREXIT1 = (DRPAUSE, DRUPDATE)"
| "transitionRow DRPAUSE = (DRPAUSE, DREXIT2)"
| "transitionRow DREXIT2 = (DRSHIFT, DRUPDATE)"
| "transitionRow DRUPDATE = (IDLE, DRSELECT)"
| "transitionRow IRSELECT = (IRCAPTURE, RESET)"
| "transitionRow IRCAPTURE = (IRSHIFT, IREXIT1)"
| "transitionRow IRSHIFT = (IRSHIFT, IREXIT1)"
| "transitionRow IREXIT1 = (IRPAUSE, IRUPDATE)"
| "transitionRow IRPAUSE = (IRPAUSE, IREXIT2)"
| "transitionRow IREXIT2 = (IRSHIFT, IRUPDATE)"
| "transitionRow IRUPDATE = (IDLE, DRSELECT)"

definition stateTransitions :: "tap_state \<Rightarrow> nat \<Rightarrow> tap_state option" where
  "stateTransitions s tms =
     (if tms = 0 then Some (fst (transitionRow s))
      else if tms = 1 then Some (snd (transitionRow s))
      else None)"

text \<open>
  \<open>applyTMSSequence\<close>: one table lookup per TMS value; a value with no entry leaves the
  state where it is.
\<close>

fun applyTMSSequence :: "tap_state \<Rightarrow> nat list \<Rightarrow> tap_state" where
  "applyTMSSequence s [] = s"
| "applyTMSSequence s (tms # rest) =
     (case stateTransitions s tms of
        None \<Rightarrow> applyTMSSequence s rest
      | Some nextState \<Rightarrow> applyTMSSequence nextState rest)"

subsection \<open>findStatePath: breadth-first search\<close>

text \<open>
  The inner \<open>for (const tms of [0, 1])\<close> loop of \<open>findStatePath\<close>, for the queue entry
  \<open>(state, path)\<close> just taken off the queue. It either returns the path (the
  \<open>return nextPath\<close> of the source) or falls through with the visited set and the
  queue as it has extended them. The target \<open>to\<close> is whatever the caller passes: a key
  of the table, or (\<open>None\<close>) a value that is no key, which \<open>nextState === to\<close> never
  meets.
\<close>

datatype bfs_step =
    Found "nat list"
  | Continue "tap_state set" "(tap_state \<times> nat list) list"

fun scanTMS ::
  "tap_state option \<Rightarrow> tap_state \<Rightarrow> nat list \<Rightarrow> nat list \<Rightarrow> tap_state set \<Rightarrow>
   (tap_state \<times> nat list) list \<Rightarrow> bfs_step" where
  "scanTMS to state path [] visited queue = Continue visited queue"
| "scanTMS to state path (tms # rest) visited queue =
     (case stateTransitions state tms of
        None \<Rightarrow> scanTMS to state path rest visited queue
      | Some nextState \<Rightarrow>
          if nextState \<in> visited then scanTMS to state path rest visited queue
          else if Some nextState = to then Found (path @ [tms])
          else scanTMS to state path rest (insert nextState visited)
                 (queue @ [(nextState, path @ [tms])]))"

lemma tap_state_UNIV:
  "(UNIV :: tap_state set) =
     {RESET, IDLE, DRSELECT, DRCAPTURE, DRSHIFT, DREXIT1, DRPAUSE, DREXIT2, DRUPDATE,
      IRSELECT, IRCAPTURE, IRSHIFT, IREXIT1, IRPAUSE, IREXIT2, IRUPDATE}"
proof -
  have "x \<in> {RESET, IDLE, DRSELECT, DRCAPTURE, DRSHIFT, DREXIT1, DRPAUSE, DREXIT2,
             DRUPDATE, IRSELECT, IRCAPTURE, IRSHIFT, IREXIT1, IRPAUSE, IREXIT2, IRUPDATE}"
    for x :: tap_state
    by (cases x) simp_all
  then show ?thesis by blast
qed

lemma finite_tap_states: "finite (A :: tap_state set)"
proof -
  have "finite (UNIV :: tap_state set)"
    by (subst tap_state_UNIV) simp
  then show ?thesis by (rule rev_finite_subset) simp
qed

text \<open>What is left to do: two units per unvisited state, one per queue entry.\<close>

definition bfsWork :: "tap_state set \<Rightarrow> (tap_state \<times> nat list) list \<Rightarrow> nat" where
  "bfsWork visited queue = 2 * card (- visited) + length queue"

lemma card_compl_insert:
  fixes x :: tap_state
  assumes "x \<notin> visited"
  shows "Suc (card (- insert x visited)) = card (- visited)"
proof -
  have eq: "- insert x visited = (- visited) - {x}" by blast
  have "x \<in> - visited" using assms by simp
  then have "card ((- visited) - {x}) = card (- visited) - 1"
    by (simp add: finite_tap_states)
  moreover have "0 < card (- visited)"
    using \<open>x \<in> - visited\<close> finite_tap_states [of "- visited"] card_gt_0_iff by blast
  ultimately show ?thesis using eq by simp
qed

lemma scanTMS_work:
  "scanTMS to state path ts visited queue = Continue v q \<Longrightarrow>
   bfsWork v q \<le> bfsWork visited queue"
proof (induction ts arbitrary: visited queue)
  case Nil
  then show ?case by simp
next
  case (Cons tms rest)
  show ?case
  proof (cases "stateTransitions state tms")
    case None
    with Cons show ?thesis by simp
  next
    case (Some nextState)
    show ?thesis
    proof (cases "nextState \<in> visited")
      case True
      with Some Cons show ?thesis by simp
    next
      case False
      with Some Cons.prems have ne: "Some nextState \<noteq> to"
        by (auto split: if_splits)
      with Some False Cons.prems
      have "scanTMS to state path rest (insert nextState visited)
              (queue @ [(nextState, path @ [tms])]) = Continue v q"
        by simp
      then have "bfsWork v q \<le>
          bfsWork (insert nextState visited) (queue @ [(nextState, path @ [tms])])"
        by (rule Cons.IH)
      also have "\<dots> \<le> bfsWork visited queue"
        using card_compl_insert [OF False] by (simp add: bfsWork_def)
      finally show ?thesis .
    qed
  qed
qed

text \<open>
  The \<open>while (queue.length > 0)\<close> loop: \<open>queue.shift()\<close> takes the head, the scan over
  \<open>[0, 1]\<close> follows; an empty queue reaches the final \<open>return []\<close>.
\<close>

function bfsLoop ::
  "tap_state option \<Rightarrow> tap_state set \<Rightarrow> (tap_state \<times> nat list) list \<Rightarrow> nat list" where
  "bfsLoop to visited [] = []"
| "bfsLoop to visited ((state, path) # queue) =
     (case scanTMS to state path [0, 1] visited queue of
        Found p \<Rightarrow> p
      | Continue v q \<Rightarrow> bfsLoop to v q)"
  by pat_completeness auto
termination
proof (relation "measure (\<lambda>(to, visited, queue). bfsWork visited queue)")
  show "wf (measure (\<lambda>(to, visited, queue). bfsWork visited queue))" by simp
next
  fix to :: "tap_state option" and visited state path queue v q
  assume "scanTMS to state path [0, 1] visited queue = Continue v q"
  then have "bfsWork v q \<le> bfsWork visited queue" by (rule scanTMS_work)
  then show "((to, v, q), (to, visited, (state, path) # queue))
      \<in> measure (\<lambda>(to, visited, queue). bfsWork visited queue)"
    by (simp add: bfsWork_def)
qed

definition findStatePath :: "tap_state \<Rightarrow> tap_state \<Rightarrow> nat list" where
  "findStatePath from to =
     (if from = to then [] else bfsLoop (Some to) {from} [(from, [])])"

text \<open>
  State names reach the engine as strings: the literals of its own code, and whatever
  the parser has put into a command. \<open>stateNamed\<close> is the key of \<open>stateTransitions\<close> with
  that exact spelling, if there is one; the comparison is the one of \<open>===\<close> on strings,
  so \<open>irpause\<close> is no key.
\<close>

definition stateNamed :: "string \<Rightarrow> tap_state option" where
  "stateNamed name =
     (if name = ''RESET'' then Some RESET
      else if name = ''IDLE'' then Some IDLE
      else if name = ''DRSELECT'' then Some DRSELECT
      else if name = ''DRCAPTURE'' then Some DRCAPTURE
      else if name = ''DRSHIFT'' then Some DRSHIFT
      else if name = ''DREXIT1'' then Some DREXIT1
      else if name = ''DRPAUSE'' then Some DRPAUSE
      else if name = ''DREXIT2'' then Some DREXIT2
      else if name = ''DRUPDATE'' then Some DRUPDATE
      else if name = ''IRSELECT'' then Some IRSELECT
      else if name = ''IRCAPTURE'' then Some IRCAPTURE
      else if name = ''IRSHIFT'' then Some IRSHIFT
      else if name = ''IREXIT1'' then Some IREXIT1
      else if name = ''IRPAUSE'' then Some IRPAUSE
      else if name = ''IREXIT2'' then Some IREXIT2
      else if name = ''IRUPDATE'' then Some IRUPDATE
      else None)"

text \<open>
  \<open>findStatePath\<close> as \<open>moveToState\<close> calls it: from the tracked state, which is always a
  key, to a target given by name. \<open>from === to\<close> holds when the name spells the tracked
  state; for a name that is no key the search runs until the queue is empty and the
  final \<open>return []\<close> is reached.
\<close>

definition findStatePathNamed :: "tap_state \<Rightarrow> string \<Rightarrow> nat list" where
  "findStatePathNamed from to =
     (if Some from = stateNamed to then []
      else bfsLoop (stateNamed to) {from} [(from, [])])"

text \<open>
  The order in which the search prefers paths: position by position, \<open>0\<close> before
  \<open>1\<close>.
\<close>

fun lexLeq :: "nat list \<Rightarrow> nat list \<Rightarrow> bool" where
  "lexLeq [] ys = True"
| "lexLeq (x # xs) [] = False"
| "lexLeq (x # xs) (y # ys) = (x < y \<or> (x = y \<and> lexLeq xs ys))"

text \<open>
  A local check on the table of paths, which the proofs below evaluate for each of the
  256 pairs: the path found reaches its target, it is no longer than one step plus the
  path found from either successor, and it starts with \<open>0\<close> whenever some shortest
  path does.
\<close>

definition pathLocal :: "tap_state \<Rightarrow> tap_state \<Rightarrow> bool" where
  "pathLocal s t =
     (let p = findStatePath s t;
          p0 = findStatePath (fst (transitionRow s)) t;
          p1 = findStatePath (snd (transitionRow s)) t
      in applyTMSSequence s p = t \<and>
         length p \<le> Suc (length p0) \<and> length p \<le> Suc (length p1) \<and>
         (if s = t then p = []
          else p = 0 # p0 \<or> (p = 1 # p1 \<and> length p \<le> length p0)))"

section \<open>The SVF executor on the TAP engine (JTAGStateMachine)\<close>

type_synonym byte = "8 word"

text \<open>
  Commands are the untyped objects the parser builds: a \<open>type\<close> string and whichever
  of the other fields the command has; a field that is absent (\<open>undefined\<close>) is
  \<open>None\<close>. State names in a command are the parser's strings, whatever they spell.
\<close>

record svf_command =
  cmd_type :: string
  cmd_states :: "string list"
  cmd_length :: "int option"
  cmd_tdi :: "byte list option"
  cmd_tdo :: "byte list option"
  cmd_mask :: "byte list option"
  cmd_state :: "string option"
  cmd_endState :: "string option"
  cmd_cycles :: "int option"
  cmd_mode :: string

text \<open>
  The engine talks to its adapter through three calls. The model records them, with
  their arguments, in the order they are made.
\<close>

datatype usb_call =
    ShiftBits "nat list" "nat list" int bool
  | ShiftBytes "byte list" int
  | ToggleClockCycles int

datatype jtag_error =
    RangeError
  | VerificationFailed nat byte byte byte

record jtag =
  currentState :: tap_state
  endDRState :: string
  endIRState :: string
  hir :: "svf_command option"
  tir :: "svf_command option"
  hdr :: "svf_command option"
  tdr :: "svf_command option"
  usb :: "usb_call list"

definition newJTAGStateMachine :: jtag where
  "newJTAGStateMachine =
     \<lparr>currentState = RESET, endDRState = ''IDLE'', endIRState = ''IDLE'',
      hir = None, tir = None, hdr = None, tdr = None, usb = []\<rparr>"

text \<open>
  The tracked state \<open>currentState\<close> starts as \<open>'RESET'\<close> and is only ever assigned a
  value of the table or a literal that is a key, so it is a \<open>tap_state\<close>. The end states
  are assigned from commands (\<open>cmd.state || 'IDLE'\<close>) and are strings. \<open>moveToState\<close>
  takes any string; when the search returns no path it returns without moving.
\<close>

definition moveToState :: "string \<Rightarrow> jtag \<Rightarrow> jtag" where
  "moveToState targetState s =
     (let path = findStatePathNamed (currentState s) targetState
      in if length path = 0 then s
         else s\<lparr>usb := usb s @ [ShiftBits (replicate (length path) 0) path
                                  (int (length path)) False],
                 currentState := applyTMSSequence (currentState s) path\<rparr>)"

definition clockTMS :: "nat \<Rightarrow> jtag \<Rightarrow> jtag" where
  "clockTMS tms s =
     s\<lparr>usb := usb s @ [ShiftBits [0] [tms] 1 False],
       currentState := applyTMSSequence (currentState s) [tms]\<rparr>"

definition reset :: "jtag \<Rightarrow> jtag" where
  "reset s =
     (let tmsBits = replicate 100 1;
          tdiBits = replicate 100 0;
          s1 = s\<lparr>usb := usb s @ [ShiftBits tdiBits tmsBits 100 False],
                 currentState := applyTMSSequence (currentState s) tmsBits\<rparr>;
          s2 = clockTMS 0 s1
      in s2\<lparr>currentState := IDLE\<rparr>)"

text \<open>
  \<open>bytesToBits\<close>: bit \<open>i\<close> is \<open>(bytes[i div 8] >> (i mod 8)) & 1\<close>; a byte index past
  the end of the array reads \<open>undefined\<close>, which the shift turns into 0.
\<close>

definition byteAt :: "byte list \<Rightarrow> nat \<Rightarrow> byte" where
  "byteAt bytes i = (if i < length bytes then bytes ! i else 0)"

definition bytesToBits :: "byte list \<Rightarrow> nat \<Rightarrow> nat list" where
  "bytesToBits bytes len =
     map (\<lambda>i. unat (drop_bit (i mod 8) (byteAt bytes (i div 8)) AND 1)) [0..<len]"

text \<open>
  \<open>shiftData\<close>. The two copies of the file differ in one constant, the bit count above
  which the byte path is taken (1000 in one, 64 in the other); it is the parameter
  \<open>fast\<close>. A length that is \<open>undefined\<close>, \<open>NaN\<close> or 0 returns at once. On the bit
  path \<open>new Array(length)\<close> raises \<open>RangeError\<close> for a negative length. The TDO data
  that a capturing call would return comes from the device and is not modelled; every
  call site passes \<open>capture = false\<close>.
\<close>

definition shiftData ::
  "int \<Rightarrow> byte list \<Rightarrow> int option \<Rightarrow> bool \<Rightarrow> jtag \<Rightarrow> jtag_error + jtag" where
  "shiftData fast tdi len capture s =
     (case len of
        None \<Rightarrow> Inr s
      | Some n \<Rightarrow>
          if n = 0 then Inr s
          else if n > fast \<and> \<not> capture then
            Inr (s\<lparr>usb := usb s @ [ShiftBytes tdi n],
                   currentState :=
                     (if currentState s = DRSHIFT then DREXIT1 else IREXIT1)\<rparr>)
          else if n < 0 then Inl RangeError
          else
            (let tdiArray = bytesToBits tdi (nat n);
                 tmsArray = (replicate (nat n) 0)[nat n - 1 := 1]
             in Inr (s\<lparr>usb := usb s @ [ShiftBits tdiArray tmsArray n capture],
                       currentState := applyTMSSequence (currentState s) tmsArray\<rparr>)))"

definition shiftIR :: "int \<Rightarrow> svf_command \<Rightarrow> jtag \<Rightarrow> jtag_error + jtag" where
  "shiftIR fast cmd s =
     (let s1 = moveToState ''IRSHIFT'' s
      in case (case cmd_tdi cmd of
                 None \<Rightarrow> Inr s1
               | Some tdi \<Rightarrow> shiftData fast tdi (cmd_length cmd) False s1) of
           Inl e \<Rightarrow> Inl e
         | Inr s2 \<Rightarrow> Inr (moveToState (endIRState s2) s2))"

text \<open>
  \<open>shiftDR\<close>: the TDO comparison in the source sits under \<open>shouldCapture\<close>, a constant
  \<open>false\<close>; what remains of that branch is logging.
\<close>

definition shiftDR :: "int \<Rightarrow> svf_command \<Rightarrow> jtag \<Rightarrow> jtag_error + jtag" where
  "shiftDR fast cmd s =
     (let s1 = moveToState ''DRSHIFT'' s
      in case (case cmd_tdi cmd of
                 None \<Rightarrow> Inr s1
               | Some tdi \<Rightarrow> shiftData fast tdi (cmd_length cmd) False s1) of
           Inl e \<Rightarrow> Inl e
         | Inr s2 \<Rightarrow> Inr (moveToState (endDRState s2) s2))"

text \<open>
  \<open>x || d\<close> on a string that may be absent: \<open>undefined\<close> and the empty string give
  \<open>d\<close>.
\<close>

definition orElse :: "string option \<Rightarrow> string \<Rightarrow> string" where
  "orElse x d = (case x of None \<Rightarrow> d | Some n \<Rightarrow> if n = [] then d else n)"

definition runTest :: "svf_command \<Rightarrow> jtag \<Rightarrow> jtag" where
  "runTest cmd s =
     (let cycles = (case cmd_cycles cmd of None \<Rightarrow> 0 | Some c \<Rightarrow> c);
          runState = orElse (cmd_state cmd) ''IDLE'';
          endState = orElse (cmd_endState cmd) runState;
          s1 = moveToState runState s;
          s2 = (if cycles > 0 then s1\<lparr>usb := usb s1 @ [ToggleClockCycles cycles]\<rparr> else s1)
      in if endState \<noteq> runState then moveToState endState s2 else s2)"

text \<open>
  \<open>executeCommand\<close>: the \<open>switch\<close> on \<open>cmd.type\<close>. \<open>STATE\<close> with an empty list asks
  for the path to \<open>undefined\<close>, which the search does not find, so nothing moves.
  \<open>ENDDR\<close> and \<open>ENDIR\<close> store the command's \<open>state\<close> string as it is. \<open>FREQUENCY\<close>,
  \<open>TRST\<close> and unknown types only log.
\<close>

definition executeCommand :: "int \<Rightarrow> svf_command \<Rightarrow> jtag \<Rightarrow> jtag_error + jtag" where
  "executeCommand fast cmd s =
     (if cmd_type cmd = ''STATE'' then
        (if cmd_states cmd = [] then Inr s
         else Inr (moveToState (last (cmd_states cmd)) s))
      else if cmd_type cmd = ''SIR'' then shiftIR fast cmd s
      else if cmd_type cmd = ''SDR'' then shiftDR fast cmd s
      else if cmd_type cmd = ''RUNTEST'' then Inr (runTest cmd s)
      else if cmd_type cmd = ''FREQUENCY'' then Inr s
      else if cmd_type cmd = ''TRST'' then Inr s
      else if cmd_type cmd = ''ENDDR'' then
        Inr (s\<lparr>endDRState := orElse (cmd_state cmd) ''IDLE''\<rparr>)
      else if cmd_type cmd = ''ENDIR'' then
        Inr (s\<lparr>endIRState := orElse (cmd_state cmd) ''IDLE''\<rparr>)
      else if cmd_type cmd = ''HIR'' then Inr (s\<lparr>hir := Some cmd\<rparr>)
      else if cmd_type cmd = ''TIR'' then Inr (s\<lparr>tir := Some cmd\<rparr>)
      else if cmd_type cmd = ''HDR'' then Inr (s\<lparr>hdr := Some cmd\<rparr>)
      else if cmd_type cmd = ''TDR'' then Inr (s\<lparr>tdr := Some cmd\<rparr>)
      else Inr s)"

subsection \<open>verifyData\<close>

text \<open>
  \<open>Math.ceil(bitLength / 8)\<close> on an integer.
\<close>

definition ceilDiv8 :: "int \<Rightarrow> int" where
  "ceilDiv8 n = (n + 7) div 8"

text \<open>
  The loop over \<open>i = 0 .. numBytes - 1\<close>, started at \<open>i\<close>. A \<open>null\<close> mask compares
  every bit (\<open>0xFF\<close>); a mask array that is too short reads \<open>undefined\<close>, which
  \<open>?? 0\<close> makes 0; \<open>tdoBytes[i] || 0\<close> and \<open>expectedBytes[i] || 0\<close> read 0 past the
  end, and a \<open>null\<close> expectation is 0 everywhere. The first mismatch throws.
\<close>

definition maskByteAt :: "byte list option \<Rightarrow> nat \<Rightarrow> byte" where
  "maskByteAt maskBytes i = (case maskBytes of None \<Rightarrow> 0xFF | Some m \<Rightarrow> byteAt m i)"

definition expectedByteAt :: "byte list option \<Rightarrow> nat \<Rightarrow> byte" where
  "expectedByteAt expectedBytes i = (case expectedBytes of None \<Rightarrow> 0 | Some e \<Rightarrow> byteAt e i)"

function verifyLoop ::
  "byte list \<Rightarrow> byte list option \<Rightarrow> byte list option \<Rightarrow> int \<Rightarrow> nat \<Rightarrow> jtag_error option"
  where
  "verifyLoop tdoBytes expectedBytes maskBytes numBytes i =
     (if int i < numBytes then
        (let maskByte = maskByteAt maskBytes i
         in if maskByte = 0 then verifyLoop tdoBytes expectedBytes maskBytes numBytes (i + 1)
            else
              (let tdoByte = byteAt tdoBytes i;
                   expectedByte = expectedByteAt expectedBytes i
               in if (tdoByte AND maskByte) \<noteq> (expectedByte AND maskByte)
                  then Some (VerificationFailed i tdoByte expectedByte maskByte)
                  else verifyLoop tdoBytes expectedBytes maskBytes numBytes (i + 1)))
      else None)"
  by pat_completeness auto
termination
  by (relation "measure (\<lambda>(t, e, m, n, i). nat (n - int i))") auto

declare verifyLoop.simps [simp del]

text \<open>
  \<open>verifyData\<close> is a method of the engine; it reads its arguments and nothing else.
  A \<open>tdo\<close> that is \<open>null\<close> becomes the empty array.
\<close>

definition verifyData ::
  "jtag \<Rightarrow> byte list option \<Rightarrow> byte list option \<Rightarrow> byte list option \<Rightarrow> int \<Rightarrow>
   jtag_error + jtag" where
  "verifyData s tdo expected msk bitLength =
     (let tdoBytes = (case tdo of None \<Rightarrow> [] | Some t \<Rightarrow> t);
          numBytes = ceilDiv8 bitLength
      in case verifyLoop tdoBytes expected msk numBytes 0 of
           Some e \<Rightarrow> Inl e
         | None \<Rightarrow> Inr s)"

text \<open>The comparison the loop makes at index \<open>j\<close>.\<close>

definition byteMatches :: "byte list \<Rightarrow> byte list option \<Rightarrow> byte list option \<Rightarrow> nat \<Rightarrow> bool" where
  "byteMatches t e m j \<longleftrightarrow>
     (byteAt t j AND maskByteAt m j) = (expectedByteAt e j AND maskByteAt m j)"

text \<open>A command used as concrete input below: a 2000-bit SDR.\<close>

definition sdrLarge :: svf_command where
  "sdrLarge = \<lparr>cmd_type = ''SDR'', cmd_states = [], cmd_length = Some 2000,
     cmd_tdi = Some [0xFF], cmd_tdo = None, cmd_mask = None, cmd_state = None,
     cmd_endState = None, cmd_cycles = None, cmd_mode = ''''\<rparr>"


subsection \<open>What the adapter is asked to put on the wire\<close>

text \<open>
  The bits a recorded call asks the adapter to clock, as pairs (TDI, TMS), one per TCK
  edge. The arrays of \<open>shiftBits\<close> are read by truthiness, and as 0 past their end.
  \<open>shiftBytes\<close> asks for bit \<open>i\<close> of \<open>tdiBytes[i div 8]\<close>, least significant bit
  first, with TMS at 0 and raised on the last bit. \<open>toggleClockCycles\<close> asks for
  clocks with TDI and TMS at 0, which the adapter sends as whole bytes of zeros.
\<close>

definition bitAt :: "nat list \<Rightarrow> nat \<Rightarrow> nat" where
  "bitAt bits i = (if i < length bits \<and> bits ! i \<noteq> 0 then 1 else 0)"

fun callBits :: "usb_call \<Rightarrow> (nat \<times> nat) list" where
  "callBits (ShiftBits tdiBits tmsBits bitLength capture) =
     map (\<lambda>i. (bitAt tdiBits i, bitAt tmsBits i)) [0..<nat bitLength]"
| "callBits (ShiftBytes tdiBytes bitLength) =
     map (\<lambda>i. (unat (drop_bit (i mod 8) (byteAt tdiBytes (i div 8)) AND 1),
                if i + 1 = nat bitLength then 1 else 0)) [0..<nat bitLength]"
| "callBits (ToggleClockCycles cycles) = replicate (8 * nat (ceilDiv8 cycles)) (0, 0)"

text \<open>
  Of such pairs, those that are clocked while the TAP is in the state \<open>sh\<close>, when the
  TAP starts in \<open>st\<close> and follows the TMS values.
\<close>

fun shiftedIn :: "tap_state \<Rightarrow> tap_state \<Rightarrow> (nat \<times> nat) list \<Rightarrow> (nat \<times> nat) list" where
  "shiftedIn sh st [] = []"
| "shiftedIn sh st ((tdi, tms) # rest) =
     (if st = sh then [(tdi, tms)] else []) @
     shiftedIn sh (applyTMSSequence st [tms]) rest"

text \<open>
  TDI bits with TMS at 0, and at the last bit TMS as \<open>exit\<close> says.
\<close>

definition withTMS :: "nat list \<Rightarrow> bool \<Rightarrow> (nat \<times> nat) list" where
  "withTMS bits exit =
     (if bits = [] then []
      else map (\<lambda>b. (b, 0)) (butlast bits) @ [(last bits, if exit then 1 else 0)])"

definition commandBits :: "svf_command option \<Rightarrow> nat list" where
  "commandBits c =
     (case c of
        None \<Rightarrow> []
      | Some cmd \<Rightarrow>
          (case (cmd_tdi cmd, cmd_length cmd) of
             (Some tdi, Some n) \<Rightarrow> bytesToBits tdi (nat n)
           | _ \<Rightarrow> []))"

text \<open>
  The shift as the specification describes it (section 4.3, steps 2 to 4): the header
  with TMS at 0 throughout, the payload whose last bit has TMS at 1 iff no trailer is
  installed, the trailer with TMS at 1 on its last bit.
\<close>

definition specShiftBits ::
  "svf_command option \<Rightarrow> svf_command \<Rightarrow> svf_command option \<Rightarrow> (nat \<times> nat) list" where
  "specShiftBits header cmd trailer =
     withTMS (commandBits header) False @
     withTMS (commandBits (Some cmd)) (commandBits trailer = []) @
     withTMS (commandBits trailer) True"

text \<open>
  The shift state of a command, the state the last payload bit leaves it for, and the
  pairs a navigation path puts on the wire (TDI at 0).
\<close>

definition shiftState :: "svf_command \<Rightarrow> tap_state" where
  "shiftState cmd = (if cmd_type cmd = ''SIR'' then IRSHIFT else DRSHIFT)"

definition exitState :: "tap_state \<Rightarrow> tap_state" where
  "exitState sh = (if sh = DRSHIFT then DREXIT1 else IREXIT1)"

definition navBits :: "nat list \<Rightarrow> (nat \<times> nat) list" where
  "navBits path = map (\<lambda>m. (0, if m \<noteq> 0 then 1 else 0)) path"

text \<open>Concrete commands: a 2-bit header and a 4-bit SIR.\<close>

definition hir2 :: svf_command where
  "hir2 = \<lparr>cmd_type = ''HIR'', cmd_states = [], cmd_length = Some 2,
     cmd_tdi = Some [0x03], cmd_tdo = None, cmd_mask = None, cmd_state = None,
     cmd_endState = None, cmd_cycles = None, cmd_mode = ''''\<rparr>"

definition sir4 :: svf_command where
  "sir4 = \<lparr>cmd_type = ''SIR'', cmd_states = [], cmd_length = Some 4,
     cmd_tdi = Some [0x05], cmd_tdo = None, cmd_mask = None, cmd_state = None,
     cmd_endState = None, cmd_cycles = None, cmd_mode = ''''\<rparr>"

section \<open>The SVF parser's hex data (SVFParser.parseHexData)\<close>

text \<open>
  SVF is ASCII text, and the model's strings are lists of 8-bit characters. White space
  is what the regular expression \<open>\s\<close> matches among them: tab, line feed, vertical
  tab, form feed, carriage return, space and the no-break space. \<open>toUpperCase\<close> is
  modelled on ASCII, where it changes the letters \<open>a\<close> to \<open>z\<close>; what JavaScript does
  to letters beyond ASCII is outside the model, and the properties below are about
  tokens made of hex digits, parentheses and white space.
\<close>

definition isSpace :: "char \<Rightarrow> bool" where
  "isSpace c \<longleftrightarrow>
     c \<in> {CHR 0x09, CHR 0x0A, CHR 0x0B, CHR 0x0C, CHR 0x0D, CHR 0x20, CHR 0xA0}"

definition toUpperChar :: "char \<Rightarrow> char" where
  "toUpperChar c =
     (if c \<in> set ''abcdefghijklmnopqrstuvwxyz'' then char_of (of_char c - (32 :: nat)) else c)"

definition toUpperCase :: "string \<Rightarrow> string" where
  "toUpperCase s = map toUpperChar s"

definition hexDigitValue :: "char \<Rightarrow> nat option" where
  "hexDigitValue c =
     (if c \<in> set ''0123456789'' then Some (of_char c - 48)
      else if c \<in> set ''ABCDEF'' then Some (of_char c - 55)
      else if c \<in> set ''abcdef'' then Some (of_char c - 87)
      else None)"

text \<open>
  \<open>parseInt(s, 16)\<close>: leading white space is skipped, then an optional sign, then an
  optional \<open>0x\<close> or \<open>0X\<close>; the value is that of the longest run of hex digits that
  follows, and \<open>NaN\<close> (\<open>None\<close>) when the run is empty.
\<close>

definition parseInt16 :: "string \<Rightarrow> int option" where
  "parseInt16 s =
     (let s1 = dropWhile isSpace s;
          negative = (s1 \<noteq> [] \<and> hd s1 = CHR ''-'');
          s2 = (if s1 \<noteq> [] \<and> (hd s1 = CHR ''-'' \<or> hd s1 = CHR ''+'') then tl s1 else s1);
          s3 = (if take 2 s2 = ''0x'' \<or> take 2 s2 = ''0X'' then drop 2 s2 else s2);
          digits = takeWhile (\<lambda>c. hexDigitValue c \<noteq> None) s3;
          v = foldl (\<lambda>a c. 16 * a + int (the (hexDigitValue c))) 0 digits
      in if digits = [] then None else Some (if negative then - v else v))"

text \<open>
  The text \<open>parseHexData\<close> works on: parentheses and white space removed, upper case,
  and a \<open>0\<close> in front when the number of characters is odd.
\<close>

definition stripHex :: "string \<Rightarrow> string" where
  "stripHex hexToken =
     toUpperCase (filter (\<lambda>c. \<not> isSpace c)
       (filter (\<lambda>c. c \<noteq> CHR ''('' \<and> c \<noteq> CHR '')'') hexToken))"

definition padHex :: "string \<Rightarrow> string" where
  "padHex hexStr = (if length hexStr mod 2 \<noteq> 0 then CHR ''0'' # hexStr else hexStr)"

text \<open>
  Byte \<open>i\<close> of the loop: the two characters at \<open>hexStr.length - 2 - 2 * i\<close>, through
  \<open>parseInt(pair, 16) || 0\<close>, stored into a \<open>Uint8Array\<close> (modulo 256).
\<close>

definition pairByte :: "string \<Rightarrow> nat \<Rightarrow> byte" where
  "pairByte hexStr i =
     (let hexIndex = length hexStr - 2 - i * 2;
          pair = take 2 (drop hexIndex hexStr)
      in case parseInt16 pair of None \<Rightarrow> 0 | Some v \<Rightarrow> word_of_int v)"

datatype parse_error = InvalidArrayLength

text \<open>
  \<open>parseHexData\<close>. An empty token is \<open>null\<close> (\<open>None\<close>). \<open>new Uint8Array\<close> of a
  negative length raises, which can happen only for text with no hex characters and a
  bit length of \<open>-8\<close> or less.
\<close>

definition parseHexData :: "string \<Rightarrow> int \<Rightarrow> parse_error + byte list option" where
  "parseHexData hexToken bitLength =
     (if hexToken = [] then Inr None
      else
        (let hexStr = stripHex hexToken
         in if length hexStr = 0 then
              (if ceilDiv8 bitLength < 0 then Inl InvalidArrayLength
               else Inr (Some (replicate (nat (ceilDiv8 bitLength)) 0)))
            else
              (let hexStr = padHex hexStr;
                   providedBytes = length hexStr div 2;
                   targetBytes = ceilDiv8 bitLength;
                   byteLength = max (int providedBytes) targetBytes;
                   bytes = replicate (nat byteLength) 0
               in Inr (Some (foldl (\<lambda>bytes i. bytes[i := pairByte hexStr i]) bytes
                               [0..<providedBytes])))))"

text \<open>
  Hex tokens: hex digits, parentheses and white space. The value of the hex digit that
  stands \<open>k\<close> places from the right end of the stripped token, 0 where there is none.
\<close>

definition hexToken :: "string \<Rightarrow> bool" where
  "hexToken h \<longleftrightarrow>
     (\<forall>c \<in> set h. hexDigitValue c \<noteq> None \<or> c = CHR ''('' \<or> c = CHR '')'' \<or> isSpace c)"

definition hexDigits :: "string \<Rightarrow> string" where
  "hexDigits h = filter (\<lambda>c. hexDigitValue c \<noteq> None) h"

definition digitFromRight :: "string \<Rightarrow> nat \<Rightarrow> nat" where
  "digitFromRight h k =
     (if k < length (hexDigits h) then the (hexDigitValue (rev (hexDigits h) ! k)) else 0)"

definition suppliedBytes :: "string \<Rightarrow> nat" where
  "suppliedBytes h = (length (hexDigits h) + 1) div 2"


subsection \<open>parseEnd\<close>

text \<open>
  \<open>parseCommand\<close> splits the command text at white space, upper-cases \<open>tokens[0]\<close> to
  find the command and, for \<open>ENDIR\<close> and \<open>ENDDR\<close>, calls \<open>parseEnd\<close> with the upper-cased
  name and the tokens. \<open>parseEnd\<close> returns the object \<open>{type, state: tokens[1]}\<close>: the
  second token as written (\<open>undefined\<close> when there is none), where \<open>parseRunTest\<close>
  applies \<open>toUpperCase\<close> to the state names it stores.
\<close>

definition parseEnd :: "string \<Rightarrow> string list \<Rightarrow> svf_command" where
  "parseEnd type tokens =
     \<lparr>cmd_type = type, cmd_states = [], cmd_length = None,
      cmd_tdi = None, cmd_tdo = None, cmd_mask = None,
      cmd_state = (if 1 < length tokens then Some (tokens ! 1) else None),
      cmd_endState = None, cmd_cycles = None, cmd_mode = ''''\<rparr>"

text \<open>Concrete input: the command \<open>SIR 6 TDI (3F)\<close> as parsed.\<close>

definition sir6 :: svf_command where
  "sir6 = \<lparr>cmd_type = ''SIR'', cmd_states = [], cmd_length = Some 6,
     cmd_tdi = Some [0x3F], cmd_tdo = None, cmd_mask = None, cmd_state = None,
     cmd_endState = None, cmd_cycles = None, cmd_mode = ''''\<rparr>"
section \<open>The legacy adapter (USBBlasterII)\<close>

text \<open>
  The adapter's state is whether a device is open, what has been written to the OUT
  endpoint (one list of bytes per \<open>transferOut\<close>, in order), and the length of the
  cached \<open>_zeroBuffer\<close>. A transfer that the USB stack rejects and the data read back
  from the device are outside the model: every transfer out succeeds and TDO is not
  represented.
\<close>

datatype usb_error = NotConnected

record blaster =
  device :: bool
  wire :: "byte list list"
  zeroBuffer :: "nat option"

subsection \<open>shiftBytesRaw\<close>

text \<open>
  The inner loop fills one batch with byte-shift commands of at most 63 data bytes each
  while the batch has fewer than \<open>4096 - 64\<close> bytes; the result is the new byte offset
  and the batch. A data byte past the end of \<open>tdiBytes\<close> is \<open>undefined\<close> and is stored
  as 0.
\<close>

function fillBatch ::
  "byte list \<Rightarrow> nat \<Rightarrow> nat \<Rightarrow> nat \<Rightarrow> byte list \<Rightarrow> nat \<times> byte list" where
  "fillBatch tdiBytes startByte numBytes byteOffset batch =
     (if byteOffset < numBytes \<and> length batch < 4096 - 64 then
        (let bytesInThisPacket = min 63 (numBytes - byteOffset);
             cmdByte = (0x80 :: byte) OR (of_nat bytesInThisPacket AND 0x3f)
         in fillBatch tdiBytes startByte numBytes (byteOffset + bytesInThisPacket)
              (batch @ [cmdByte] @
               map (\<lambda>i. byteAt tdiBytes (startByte + byteOffset + i)) [0..<bytesInThisPacket]))
      else (byteOffset, batch))"
  by pat_completeness auto
termination
  by (relation "measure (\<lambda>(t, s, n, off, b). n - off)") auto

declare fillBatch.simps [simp del]

lemma fillBatch_progress:
  "byteOffset \<le> fst (fillBatch tdiBytes startByte numBytes byteOffset batch)"
proof (induction tdiBytes startByte numBytes byteOffset batch rule: fillBatch.induct)
  case (1 tdiBytes startByte numBytes byteOffset batch)
  show ?case
  proof (cases "byteOffset < numBytes \<and> length batch < 4096 - 64")
    case True
    from "1.IH" [OF True refl refl]
    show ?thesis using True by (subst fillBatch.simps) (simp add: Let_def)
  next
    case False
    then show ?thesis by (subst fillBatch.simps) auto
  qed
qed

lemma fillBatch_first:
  assumes "byteOffset < numBytes"
  shows "byteOffset < fst (fillBatch tdiBytes startByte numBytes byteOffset [])"
proof -
  let ?n = "min 63 (numBytes - byteOffset)"
  let ?batch = "[] @ [(0x80 :: byte) OR (of_nat ?n AND 0x3f)] @
       map (\<lambda>i. byteAt tdiBytes (startByte + byteOffset + i)) [0..<?n]"
  from assms have pos: "0 < ?n" by simp
  have step: "fillBatch tdiBytes startByte numBytes byteOffset [] =
      fillBatch tdiBytes startByte numBytes (byteOffset + ?n) ?batch"
    using assms by (subst fillBatch.simps) (simp add: Let_def)
  have "byteOffset + ?n \<le> fst (fillBatch tdiBytes startByte numBytes (byteOffset + ?n) ?batch)"
    by (rule fillBatch_progress)
  with pos show ?thesis unfolding step by linarith
qed

text \<open>The outer loop: one transfer per batch.\<close>

function rawBatches :: "byte list \<Rightarrow> nat \<Rightarrow> nat \<Rightarrow> nat \<Rightarrow> byte list list" where
  "rawBatches tdiBytes startByte numBytes byteOffset =
     (if byteOffset < numBytes then
        (case fillBatch tdiBytes startByte numBytes byteOffset [] of
           (next, batch) \<Rightarrow> batch # rawBatches tdiBytes startByte numBytes next)
      else [])"
  by pat_completeness auto
termination
proof (relation "measure (\<lambda>(t, s, n, off). n - off)")
  show "wf (measure (\<lambda>(t, s, n, off). n - off))" by simp
next
  fix tdiBytes :: "byte list" and startByte numBytes byteOffset :: nat
    and nxt :: nat and batch :: "byte list"
  assume lt: "byteOffset < numBytes"
    and p: "(nxt, batch) = fillBatch tdiBytes startByte numBytes byteOffset []"
  from p have "nxt = fst (fillBatch tdiBytes startByte numBytes byteOffset [])"
    by (metis fst_conv)
  with fillBatch_first [OF lt, of tdiBytes startByte] have "byteOffset < nxt" by simp
  with lt show "((tdiBytes, startByte, numBytes, nxt), (tdiBytes, startByte, numBytes, byteOffset))
      \<in> measure (\<lambda>(t, s, n, off). n - off)"
    by simp
qed

declare rawBatches.simps [simp del]

text \<open>\<open>shiftBytesRaw\<close>: the anchor byte in a transfer of its own, then the batches.\<close>

definition shiftBytesRaw :: "byte list \<Rightarrow> nat \<Rightarrow> nat \<Rightarrow> byte list list" where
  "shiftBytesRaw tdiBytes startByte numBytes =
     [0x2C] # rawBatches tdiBytes startByte numBytes 0"

subsection \<open>shiftBytes\<close>

text \<open>
  Bit \<open>i\<close> of the tail: \<open>(tdiBytes[lastByteStart + floor(i / 8)] >> (i % 8)) & 1\<close>.
  For a negative \<open>i\<close> (a bit length of 0 or less) the array index is negative, the
  element \<open>undefined\<close> and the bit 0.
\<close>

definition tailBit :: "byte list \<Rightarrow> nat \<Rightarrow> int \<Rightarrow> byte" where
  "tailBit tdiBytes lastByteStart i =
     (if i < 0 then 0
      else drop_bit (nat i mod 8) (byteAt tdiBytes (lastByteStart + nat i div 8)) AND 1)"

definition shiftBytes :: "byte list \<Rightarrow> int \<Rightarrow> blaster \<Rightarrow> usb_error + blaster" where
  "shiftBytes tdiBytes bitLength b =
     (if \<not> device b then Inl NotConnected
      else
        (let numBytes = ceilDiv8 bitLength;
             bytesToShiftFast = (if numBytes > 1 then nat (numBytes - 1) else 0);
             w1 = (if bytesToShiftFast > 0 then shiftBytesRaw tdiBytes 0 bytesToShiftFast else []);
             lastByteStart = bytesToShiftFast;
             remainingBits = bitLength - int bytesToShiftFast * 8;
             base = (0x2C :: byte);
             w2 = (if remainingBits > 1 then
                     [concat (map (\<lambda>i. let tdi = tailBit tdiBytes lastByteStart (int i)
                                         in [base OR push_bit 4 tdi OR 0,
                                             base OR push_bit 4 tdi OR 1])
                                  [0..<nat (remainingBits - 1)])]
                   else []);
             tdi = tailBit tdiBytes lastByteStart (remainingBits - 1);
             w3 = [[base OR push_bit 4 tdi OR 0x02, base OR push_bit 4 tdi OR 0x03]]
         in Inr (b\<lparr>wire := wire b @ w1 @ w2 @ w3\<rparr>)))"

subsection \<open>toggleClockCycles\<close>

text \<open>
  Nothing happens without a device or for \<open>cycles \<le> 0\<close>. Otherwise an anchor byte is
  sent, the zero buffer is made at least \<open>numBytes\<close> long (65536 at the least when it
  is made anew), and \<open>shiftBytesRaw\<close> sends \<open>numBytes = ceil(cycles / 8)\<close> of its
  bytes.
\<close>

definition toggleClockCycles :: "int \<Rightarrow> blaster \<Rightarrow> blaster" where
  "toggleClockCycles cycles b =
     (if \<not> device b \<or> cycles \<le> 0 then b
      else
        (let numBytes = nat (ceilDiv8 cycles);
             zlen = (case zeroBuffer b of
                       None \<Rightarrow> max numBytes 65536
                     | Some l \<Rightarrow> if l < numBytes then max numBytes 65536 else l)
         in b\<lparr>wire := wire b @ [[0x2C]] @ shiftBytesRaw (replicate zlen 0) 0 numBytes,
              zeroBuffer := Some zlen\<rparr>))"

subsection \<open>shiftBits\<close>

definition canUseByteshiftMode :: "nat list \<Rightarrow> nat \<Rightarrow> int \<Rightarrow> bool" where
  "canUseByteshiftMode tmsBits startIndex totalLength =
     list_all (\<lambda>i. bitAt tmsBits (startIndex + i) = 0)
       [0..<nat (min 8 (totalLength - int startIndex))]"

text \<open>
  \<open>shiftBitBang\<close>: two bytes per bit, all in one transfer. With \<open>capture\<close> the clock
  byte has the read bit \<open>0x40\<close>.
\<close>

definition bitBangPair :: "nat list \<Rightarrow> nat list \<Rightarrow> bool \<Rightarrow> nat \<Rightarrow> byte list" where
  "bitBangPair tdiBits tmsBits capture bitIdx =
     (let tdi = (if bitAt tdiBits bitIdx \<noteq> 0 then 0x10 else 0);
          tms = (if bitAt tmsBits bitIdx \<noteq> 0 then 0x02 else 0);
          base = (0x2C :: byte) OR tdi OR tms
      in [base, base OR 0x01 OR (if capture then 0x40 else 0)])"

definition shiftBitBang :: "nat list \<Rightarrow> nat list \<Rightarrow> nat \<Rightarrow> nat \<Rightarrow> bool \<Rightarrow> byte list" where
  "shiftBitBang tdiBits tmsBits startIndex bitCount capture =
     concat (map (\<lambda>i. bitBangPair tdiBits tmsBits capture (startIndex + i)) [0..<bitCount])"

text \<open>
  \<open>shiftBytewise\<close>: packets of a command byte and at most 63 data bytes, one transfer
  each. Data byte \<open>k\<close> collects the bits \<open>startBit + 8 k\<close> onwards, least significant
  first, up to the end of the range.
\<close>

definition packByte :: "nat list \<Rightarrow> nat \<Rightarrow> nat \<Rightarrow> nat \<Rightarrow> byte" where
  "packByte tdiBits startBit bitCount k =
     foldl (\<lambda>byte bit.
              let bitIdx = startBit + k * 8 + bit
              in if bitIdx < startBit + bitCount \<and> bitAt tdiBits bitIdx \<noteq> 0
                 then byte OR push_bit bit 1 else byte)
       0 [0..<8]"

function bytewisePackets :: "nat list \<Rightarrow> nat \<Rightarrow> nat \<Rightarrow> nat \<Rightarrow> nat \<Rightarrow> byte list list" where
  "bytewisePackets tdiBits startBit bitCount numBytes byteOffset =
     (if byteOffset < numBytes then
        (let bytesInThisPacket = min 63 (numBytes - byteOffset);
             cmdByte = (0x80 :: byte) OR (of_nat bytesInThisPacket AND 0x3f);
             tdiBytes = map (\<lambda>i. packByte tdiBits startBit bitCount (byteOffset + i))
                          [0..<bytesInThisPacket]
         in (cmdByte # tdiBytes) #
            bytewisePackets tdiBits startBit bitCount numBytes (byteOffset + 63))
      else [])"
  by pat_completeness auto
termination
  by (relation "measure (\<lambda>(t, s, c, n, off). n - off)") auto

declare bytewisePackets.simps [simp del]

definition shiftBytewise :: "nat list \<Rightarrow> nat \<Rightarrow> nat \<Rightarrow> byte list list" where
  "shiftBytewise tdiBits startBit bitCount =
     bytewisePackets tdiBits startBit bitCount ((bitCount + 7) div 8) 0"

text \<open>The \<open>while (bitIndex < bitLength)\<close> loop of \<open>shiftBits\<close>.\<close>

function shiftBitsLoop ::
  "nat list \<Rightarrow> nat list \<Rightarrow> int \<Rightarrow> bool \<Rightarrow> nat \<Rightarrow> byte list list" where
  "shiftBitsLoop tdiBits tmsBits bitLength capture bitIndex =
     (if int bitIndex < bitLength then
        (if (\<not> capture \<and> canUseByteshiftMode tmsBits bitIndex bitLength) \<and>
            bitLength - int bitIndex \<ge> 16 then
           (let remainingBits = nat (bitLength - int bitIndex);
                bytesToShift = remainingBits div 8;
                bitsToShift = bytesToShift * 8
            in shiftBytewise tdiBits bitIndex bitsToShift @
               shiftBitsLoop tdiBits tmsBits bitLength capture (bitIndex + bitsToShift))
         else
           (let batchSize = min 64 (nat (bitLength - int bitIndex))
            in shiftBitBang tdiBits tmsBits bitIndex batchSize capture #
               shiftBitsLoop tdiBits tmsBits bitLength capture (bitIndex + batchSize)))
      else [])"
  by pat_completeness auto
termination
  by (relation "measure (\<lambda>(t, m, n, c, i). nat (n - int i))") auto

declare shiftBitsLoop.simps [simp del]

definition shiftBits ::
  "nat list \<Rightarrow> nat list \<Rightarrow> int \<Rightarrow> bool \<Rightarrow> blaster \<Rightarrow> usb_error + blaster" where
  "shiftBits tdiBits tmsBits bitLength capture b =
     (if \<not> device b then Inl NotConnected
      else Inr (b\<lparr>wire := wire b @ shiftBitsLoop tdiBits tmsBits bitLength capture 0\<rparr>))"

subsection \<open>Clock edges on the wire\<close>

text \<open>
  What the bytes mean to the device (section 4.2.1 of the specification): a byte with
  bit 7 set is a byte-shift command, its low six bits count the data bytes that follow,
  and each data byte is eight clocks; any other byte sets the pins, bit 0 is TCK, and a
  clock edge is a byte that raises TCK from 0 to 1. \<open>tckEdges tck bytes\<close> counts the
  rising edges in \<open>bytes\<close> when TCK is at \<open>tck\<close> before them.
\<close>

function tckEdges :: "bool \<Rightarrow> byte list \<Rightarrow> nat" where
  "tckEdges tck [] = 0"
| "tckEdges tck (b # rest) =
     (if bit b 7 then
        8 * min (unat (b AND 0x3F)) (length rest) +
        tckEdges False (drop (unat (b AND 0x3F)) rest)
      else (if \<not> tck \<and> bit b 0 then 1 else 0) + tckEdges (bit b 0) rest)"
  by pat_completeness auto
termination
  by (relation "measure (\<lambda>(t, bs). length bs)") auto

text \<open>A sequence of calls on the adapter, and the clocks each call asks for.\<close>

datatype adapter_call =
    CallShiftBits "nat list" "nat list" int bool
  | CallShiftBytes "byte list" int
  | CallToggleClockCycles int

fun runCall :: "adapter_call \<Rightarrow> blaster \<Rightarrow> usb_error + blaster" where
  "runCall (CallShiftBits tdiBits tmsBits bitLength capture) b =
     shiftBits tdiBits tmsBits bitLength capture b"
| "runCall (CallShiftBytes tdiBytes bitLength) b = shiftBytes tdiBytes bitLength b"
| "runCall (CallToggleClockCycles cycles) b = Inr (toggleClockCycles cycles b)"

fun runCalls :: "adapter_call list \<Rightarrow> blaster \<Rightarrow> usb_error + blaster" where
  "runCalls [] b = Inr b"
| "runCalls (c # cs) b =
     (case runCall c b of Inl e \<Rightarrow> Inl e | Inr b' \<Rightarrow> runCalls cs b')"

fun requested :: "adapter_call \<Rightarrow> int" where
  "requested (CallShiftBits tdiBits tmsBits bitLength capture) = bitLength"
| "requested (CallShiftBytes tdiBytes bitLength) = bitLength"
| "requested (CallToggleClockCycles cycles) = cycles"

text \<open>The clocks a call produces: \<open>toggleClockCycles\<close> rounds up to whole bytes.\<close>

fun clocked :: "adapter_call \<Rightarrow> int" where
  "clocked (CallShiftBits tdiBits tmsBits bitLength capture) = bitLength"
| "clocked (CallShiftBytes tdiBytes bitLength) = bitLength"
| "clocked (CallToggleClockCycles cycles) = 8 * ceilDiv8 cycles"

fun validCall :: "adapter_call \<Rightarrow> bool" where
  "validCall (CallShiftBits tdiBits tmsBits bitLength capture) = (0 \<le> bitLength)"
| "validCall (CallShiftBytes tdiBytes bitLength) = (1 \<le> bitLength)"
| "validCall (CallToggleClockCycles cycles) = (1 \<le> cycles)"

definition connected :: blaster where
  "connected = \<lparr>device = True, wire = [], zeroBuffer = None\<rparr>"

text \<open>
  \<open>clocks k w\<close>: wherever the bytes \<open>w\<close> stand on the wire, they add \<open>k\<close> rising
  edges to what follows them.
\<close>

definition clocks :: "nat \<Rightarrow> byte list \<Rightarrow> bool" where
  "clocks k w \<longleftrightarrow> (\<forall>tck rest. \<exists>tck'. tckEdges tck (w @ rest) = k + tckEdges tck' rest)"

text \<open>Three calls used as concrete input below.\<close>

definition threeCalls :: "adapter_call list" where
  "threeCalls =
     [CallShiftBits [1, 0, 1, 1, 0, 0, 1, 1, 1, 1, 0, 1, 0, 1, 0, 1, 1, 1, 1]
                    [0, 0, 0, 0, 0, 0, 0, 0, 0, 0, 0, 0, 0, 0, 0, 0, 0, 0, 1] 19 False,
      CallShiftBytes [0xAA, 0x55, 0xFF] 24,
      CallToggleClockCycles 16]"

section \<open>The MPSSE adapter (DigilentFTDI)\<close>

text \<open>
  The driver's state is its command buffer, the count of bytes it expects to read, what
  it has written to the OUT endpoint (one list per \<open>transferOut\<close>), and, standing
  for the device, the data that each \<open>flushAndRead\<close> will receive (status bytes
  already stripped), one list per read.
\<close>

record ftdi =
  buffer :: "byte list"
  readPending :: nat
  sent :: "byte list list"
  rx :: "byte list list"

definition newFTDI :: ftdi where
  "newFTDI = \<lparr>buffer = [], readPending = 0, sent = [], rx = []\<rparr>"

definition flush :: "ftdi \<Rightarrow> ftdi" where
  "flush f = (if buffer f = [] then f else f\<lparr>sent := sent f @ [buffer f], buffer := []\<rparr>)"

text \<open>
  \<open>flushAndRead\<close>: \<open>SEND_IMMEDIATE\<close> is appended, the buffer is sent, and at most
  \<open>expectedBytes\<close> bytes of what the device returns are the result; a device that
  returns less (or nothing, after the retries) gives a shorter result.
\<close>

definition flushAndRead :: "nat \<Rightarrow> ftdi \<Rightarrow> byte list \<times> ftdi" where
  "flushAndRead expectedBytes f =
     (let f1 = f\<lparr>sent := sent f @ [buffer f @ [0x87]], buffer := []\<rparr>
      in case rx f1 of
           [] \<Rightarrow> ([], f1)
         | r # rs \<Rightarrow> (take expectedBytes r, f1\<lparr>rx := rs\<rparr>))"

subsection \<open>writeTMS\<close>

text \<open>
  One command of at most six TMS bits: the bits from \<open>offset\<close> on, TDI in bit 7, and
  the last TMS bit repeated in the position after the data.
\<close>

definition tmsBitAt :: "byte list \<Rightarrow> nat \<Rightarrow> byte" where
  "tmsBitAt tmsData offset = drop_bit (offset mod 8) (byteAt tmsData (offset div 8)) AND 1"

definition tmsCommand :: "byte list \<Rightarrow> nat \<Rightarrow> nat \<Rightarrow> nat \<Rightarrow> byte list" where
  "tmsCommand tmsData tdi offset bitsToSend =
     (let tmsByte = foldl (\<lambda>acc i. acc OR push_bit i (tmsBitAt tmsData (offset + i)))
                      (if tdi \<noteq> 0 then 0x80 else 0x00) [0..<bitsToSend];
          lastTmsBit = drop_bit (bitsToSend - 1) tmsByte AND 1;
          tmsByte = tmsByte OR push_bit bitsToSend lastTmsBit
      in [0x4B, of_nat (bitsToSend - 1), tmsByte])"

function tmsCommands :: "byte list \<Rightarrow> nat \<Rightarrow> nat \<Rightarrow> nat \<Rightarrow> byte list" where
  "tmsCommands tmsData tdi offset remaining =
     (if remaining > 0 then
        (let bitsToSend = min 6 remaining
         in tmsCommand tmsData tdi offset bitsToSend @
            tmsCommands tmsData tdi (offset + bitsToSend) (remaining - bitsToSend))
      else [])"
  by pat_completeness auto
termination
  by (relation "measure (\<lambda>(d, t, off, r). r)") auto

declare tmsCommands.simps [simp del]

definition writeTMS :: "byte list \<Rightarrow> int \<Rightarrow> bool \<Rightarrow> nat \<Rightarrow> ftdi \<Rightarrow> ftdi" where
  "writeTMS tmsData bitLen doFlush tdi f =
     (let f1 = f\<lparr>buffer := buffer f @ tmsCommands tmsData tdi 0 (nat bitLen)\<rparr>
      in if doFlush then flush f1 else f1)"

subsection \<open>writeTDI\<close>

text \<open>
  JavaScript's \<open>%\<close> takes the sign of the dividend.
\<close>

definition jsRem :: "int \<Rightarrow> int \<Rightarrow> int" where
  "jsRem a b = (if a < 0 then - ((- a) mod b) else a mod b)"

definition tdiByte :: "byte list option \<Rightarrow> nat \<Rightarrow> byte" where
  "tdiByte tdi i = (case tdi of None \<Rightarrow> 0 | Some bytes \<Rightarrow> byteAt bytes i)"

text \<open>
  The \<open>while (numBytes > 0)\<close> loop: a byte-mode command for at most 4096 bytes, with
  the count minus one in two bytes, and a flush when the buffer holds more than
  \<open>maxBufferSize - 100\<close> bytes. The result is the transmit offset and the driver.
\<close>

function byteChunks ::
  "byte list option \<Rightarrow> bool \<Rightarrow> byte \<Rightarrow> nat \<Rightarrow> nat \<Rightarrow> ftdi \<Rightarrow> nat \<times> ftdi" where
  "byteChunks tdi readBack byteCmd numBytes txOffset f =
     (if numBytes > 0 then
        (let chunkSize = min numBytes 4096;
             lenMinus1 = chunkSize - 1;
             f1 = f\<lparr>buffer := buffer f @
                      [byteCmd, of_nat (lenMinus1 mod 256), of_nat (lenMinus1 div 256 mod 256)] @
                      map (\<lambda>i. tdiByte tdi (txOffset + i)) [0..<chunkSize]\<rparr>;
             f2 = (if readBack then f1\<lparr>readPending := readPending f1 + chunkSize\<rparr> else f1);
             f3 = (if length (buffer f2) > 4096 - 100 then flush f2 else f2)
         in byteChunks tdi readBack byteCmd (numBytes - chunkSize) (txOffset + chunkSize) f3)
      else (txOffset, f))"
  by pat_completeness auto
termination
  by (relation "measure (\<lambda>(t, r, c, n, off, f). n)") auto

declare byteChunks.simps [simp del]

text \<open>
  Copying the read data into \<open>tdo\<close>. Full bytes are copied while there is read data;
  a byte is consumed only when there is room for it. The residual bits arrive in the
  high bits of one byte and are shifted down. The bit read by the TMS command is bit 7
  of the next byte and is or-ed in at the position after the residual bits.
\<close>

function copyBytes :: "byte list \<Rightarrow> nat \<Rightarrow> nat \<Rightarrow> nat \<Rightarrow> nat \<Rightarrow> byte list \<Rightarrow>
    nat \<times> nat \<times> byte list" where
  "copyBytes readData originalNumBytes i readIdx writeIdx tdo =
     (if i < originalNumBytes \<and> readIdx < length readData then
        (if writeIdx < length tdo
         then copyBytes readData originalNumBytes (i + 1) (readIdx + 1) (writeIdx + 1)
                (tdo[writeIdx := readData ! readIdx])
         else copyBytes readData originalNumBytes (i + 1) readIdx writeIdx tdo)
      else (readIdx, writeIdx, tdo))"
  by pat_completeness auto
termination
  by (relation "measure (\<lambda>(r, n, i, ri, wi, t). n - i)") auto

declare copyBytes.simps [simp del]

definition storeReadData :: "byte list \<Rightarrow> int \<Rightarrow> bool \<Rightarrow> byte list \<Rightarrow> byte list" where
  "storeReadData readData bitLen lastBitWithTMS tdo =
     (let originalRealLen = (if lastBitWithTMS then bitLen - 1 else bitLen);
          originalNumBytes = originalRealLen div 8;
          originalNumBits = jsRem originalRealLen 8;
          wasConvertedToBits =
            (originalRealLen div 8 = 1 \<and> jsRem originalRealLen 8 = 0 \<and> \<not> lastBitWithTMS);
          (readIdx, writeIdx, tdo1) =
            (if wasConvertedToBits then
               (if 0 < length readData \<and> 0 < length tdo
                then (1, 1, tdo[0 := readData ! 0]) else (0, 0, tdo))
             else
               (case copyBytes readData (nat originalNumBytes) 0 0 0 tdo of
                  (ri, wi, t) \<Rightarrow>
                    if originalNumBits > 0 \<and> ri < length readData then
                      (ri + 1, wi,
                       if wi < length t
                       then t[wi := drop_bit (nat (8 - originalNumBits)) (readData ! ri)]
                       else t)
                    else (ri, wi, t)))
      in if lastBitWithTMS \<and> readIdx < length readData then
           (let lastBit = drop_bit 7 (readData ! readIdx) AND 1;
                lastBitPos = (if originalNumBits > 0 then nat originalNumBits else 0)
            in if writeIdx < length tdo1
               then tdo1[writeIdx := (tdo1 ! writeIdx) OR push_bit lastBitPos lastBit]
               else tdo1)
         else tdo1)"

text \<open>
  \<open>writeTDI(tdi, tdo, bitLen, lastBitWithTMS)\<close>. \<open>tdi\<close> and \<open>tdo\<close> may be \<open>null\<close>;
  the result is \<open>tdo\<close> as the call leaves it, and the driver. The bit-mode command
  carries the whole byte \<open>tdi[txOffset]\<close> as its data.
\<close>

definition writeTDI ::
  "byte list option \<Rightarrow> byte list option \<Rightarrow> int \<Rightarrow> bool \<Rightarrow> ftdi \<Rightarrow> byte list option \<times> ftdi"
  where
  "writeTDI tdi tdo bitLen lastBitWithTMS f =
     (if bitLen = 0 then (tdo, f)
      else
        (let readBack = (tdo \<noteq> None);
             realLen = (if lastBitWithTMS then bitLen - 1 else bitLen);
             numBytes = realLen div 8;
             numBits = jsRem realLen 8;
             byteCmd = (0x08 :: byte) OR 0x01 OR (if tdi \<noteq> None then 0x10 else 0) OR
                       (if readBack then 0x20 else 0);
             bitCmd = byteCmd OR 0x02;
             convert = (numBytes = 1 \<and> numBits = 0 \<and> \<not> lastBitWithTMS);
             numBytes = (if convert then 0 else numBytes);
             numBits = (if convert then 8 else numBits);
             (txOffset, f1) = byteChunks tdi readBack byteCmd (nat numBytes) 0 f;
             f2 = (if numBits > 0 then
                     (let f' = f1\<lparr>buffer := buffer f1 @
                                 [bitCmd, word_of_int (numBits - 1), tdiByte tdi txOffset]\<rparr>
                      in if readBack then f'\<lparr>readPending := readPending f' + 1\<rparr> else f')
                   else f1);
             f3 = (if lastBitWithTMS then
                     (let lastBitData = (if numBits < 0 then 0
                                         else drop_bit (nat numBits) (tdiByte tdi txOffset) AND 1);
                          tmsCmd = (0x4B :: byte) OR (if readBack then 0x20 else 0);
                          f' = f2\<lparr>buffer := buffer f2 @
                                  [tmsCmd, 0, if lastBitData \<noteq> 0 then 0x81 else 0x01]\<rparr>
                      in if readBack then f'\<lparr>readPending := readPending f' + 1\<rparr> else f')
                   else f2)
         in if readBack \<and> readPending f3 > 0 then
              (case flushAndRead (readPending f3) f3 of
                 (readData, f4) \<Rightarrow>
                   (map_option (storeReadData readData bitLen lastBitWithTMS) tdo,
                    f4\<lparr>readPending := 0\<rparr>))
            else (tdo, flush f3)))"

subsection \<open>toggleClk\<close>

text \<open>
  The loop on \<open>remaining\<close>: whole bytes of clocks with \<open>CLOCK_BYTES\<close> (at most 65536
  at a time, the count minus one in two bytes), the rest with \<open>CLOCK_BITS\<close>.
\<close>

function clockCommands :: "int \<Rightarrow> ftdi \<Rightarrow> ftdi" where
  "clockCommands remaining f =
     (if remaining > 0 then
        (if remaining \<ge> 8 then
           (let cycles8 = min (remaining div 8) 65536;
                lenMinus1 = cycles8 - 1;
                f1 = f\<lparr>buffer := buffer f @
                       [0x8F, word_of_int (lenMinus1 mod 256),
                        word_of_int (lenMinus1 div 256 mod 256)]\<rparr>;
                f2 = (if length (buffer f1) > 4096 - 10 then flush f1 else f1)
            in clockCommands (remaining - cycles8 * 8) f2)
         else
           (let f1 = f\<lparr>buffer := buffer f @ [0x8E, word_of_int (remaining - 1)]\<rparr>;
                f2 = (if length (buffer f1) > 4096 - 10 then flush f1 else f1)
            in clockCommands 0 f2))
      else f)"
  by pat_completeness auto
termination
  by (relation "measure (\<lambda>(r, f). nat r)") (auto simp: min_def)

declare clockCommands.simps [simp del]

text \<open>
  \<open>toggleClk(tms, tdi, count)\<close> of the driver (\<open>ftdiToggleClk\<close> here; the programmer
  has a method of the same name). It uses neither \<open>tms\<close> nor \<open>tdi\<close>.
\<close>

definition ftdiToggleClk :: "nat \<Rightarrow> nat \<Rightarrow> int \<Rightarrow> ftdi \<Rightarrow> ftdi" where
  "ftdiToggleClk tms tdi count f = flush (clockCommands count f)"

section \<open>The Xilinx programmer (XilinxJTAG)\<close>

datatype xtap =
    TEST_LOGIC_RESET | RUN_TEST_IDLE
  | SELECT_DR_SCAN | CAPTURE_DR | SHIFT_DR | EXIT1_DR | PAUSE_DR | EXIT2_DR | UPDATE_DR
  | SELECT_IR_SCAN | CAPTURE_IR | SHIFT_IR | EXIT1_IR | PAUSE_IR | EXIT2_IR | UPDATE_IR

record xjtag =
  state :: xtap
  currTdi :: nat
  ftdiDriver :: ftdi

definition newXilinxJTAG :: "ftdi \<Rightarrow> xjtag" where
  "newXilinxJTAG f = \<lparr>state = TEST_LOGIC_RESET, currTdi = 0, ftdiDriver = f\<rparr>"

text \<open>The instruction codes of \<open>this.IR\<close> that \<open>programSRAM\<close> uses.\<close>

definition JPROGRAM :: byte where "JPROGRAM = 0x0B"
definition CFG_IN :: byte where "CFG_IN = 0x05"
definition JSTART :: byte where "JSTART = 0x0C"
definition BYPASS :: byte where "BYPASS = 0x3F"

definition goTestLogicReset :: "xjtag \<Rightarrow> xjtag" where
  "goTestLogicReset s =
     s\<lparr>ftdiDriver := writeTMS [0x3F] 6 True 0 (ftdiDriver s), state := TEST_LOGIC_RESET\<rparr>"

text \<open>
  One round of the \<open>switch\<close> in \<open>setState\<close>: the TMS value pushed and the new state.
\<close>

fun setStateStep :: "xtap \<Rightarrow> xtap \<Rightarrow> nat \<times> xtap" where
  "setStateStep targetState TEST_LOGIC_RESET = (0, RUN_TEST_IDLE)"
| "setStateStep targetState RUN_TEST_IDLE =
     (if targetState = RUN_TEST_IDLE then (0, RUN_TEST_IDLE) else (1, SELECT_DR_SCAN))"
| "setStateStep targetState SELECT_DR_SCAN =
     (if targetState \<in> {CAPTURE_DR, SHIFT_DR, EXIT1_DR, PAUSE_DR, EXIT2_DR, UPDATE_DR}
      then (0, CAPTURE_DR) else (1, SELECT_IR_SCAN))"
| "setStateStep targetState CAPTURE_DR =
     (if targetState = SHIFT_DR then (0, SHIFT_DR) else (1, EXIT1_DR))"
| "setStateStep targetState SHIFT_DR = (1, EXIT1_DR)"
| "setStateStep targetState EXIT1_DR =
     (if targetState = PAUSE_DR \<or> targetState = EXIT2_DR then (0, PAUSE_DR) else (1, UPDATE_DR))"
| "setStateStep targetState PAUSE_DR = (1, EXIT2_DR)"
| "setStateStep targetState EXIT2_DR =
     (if targetState = SHIFT_DR then (0, SHIFT_DR) else (1, UPDATE_DR))"
| "setStateStep targetState UPDATE_DR =
     (if targetState = RUN_TEST_IDLE then (0, RUN_TEST_IDLE) else (1, SELECT_DR_SCAN))"
| "setStateStep targetState SELECT_IR_SCAN =
     (if targetState \<in> {CAPTURE_IR, SHIFT_IR, EXIT1_IR, PAUSE_IR, EXIT2_IR, UPDATE_IR}
      then (0, CAPTURE_IR) else (1, TEST_LOGIC_RESET))"
| "setStateStep targetState CAPTURE_IR =
     (if targetState = SHIFT_IR then (0, SHIFT_IR) else (1, EXIT1_IR))"
| "setStateStep targetState SHIFT_IR = (1, EXIT1_IR)"
| "setStateStep targetState EXIT1_IR =
     (if targetState = PAUSE_IR \<or> targetState = EXIT2_IR then (0, PAUSE_IR) else (1, UPDATE_IR))"
| "setStateStep targetState PAUSE_IR = (1, EXIT2_IR)"
| "setStateStep targetState EXIT2_IR =
     (if targetState = SHIFT_IR then (0, SHIFT_IR) else (1, UPDATE_IR))"
| "setStateStep targetState UPDATE_IR =
     (if targetState = RUN_TEST_IDLE then (0, RUN_TEST_IDLE) else (1, SELECT_DR_SCAN))"

text \<open>
  The \<open>while (this.state !== targetState)\<close> loop. Nothing in its form bounds it, so it
  is a partial function: \<open>None\<close> is a loop that does not end.
\<close>

partial_function (option) setStateLoop ::
  "xtap \<Rightarrow> xtap \<Rightarrow> nat list \<Rightarrow> (xtap \<times> nat list) option" where
  "setStateLoop targetState st tmsSeq =
     (if st \<noteq> targetState then
        (case setStateStep targetState st of
           (tms, st') \<Rightarrow> setStateLoop targetState st' (tmsSeq @ [tms]))
      else Some (st, tmsSeq))"

declare setStateLoop.simps [code]

definition packBits :: "nat list \<Rightarrow> byte list" where
  "packBits bits =
     map (\<lambda>k. foldl (\<lambda>acc j. if bitAt bits (8 * k + j) \<noteq> 0 then acc OR push_bit j 1 else acc)
                0 [0..<8])
       [0..<(length bits + 7) div 8]"

definition setState :: "xtap \<Rightarrow> xjtag \<Rightarrow> xjtag option" where
  "setState targetState s =
     (if state s = targetState then Some s
      else
        (case setStateLoop targetState (state s) [] of
           None \<Rightarrow> None
         | Some (st, tmsSeq) \<Rightarrow>
             Some (if length tmsSeq > 0
                   then s\<lparr>state := st,
                          ftdiDriver := writeTMS (packBits tmsSeq) (int (length tmsSeq)) True
                                          (currTdi s) (ftdiDriver s)\<rparr>
                   else s\<lparr>state := st\<rparr>)))"

text \<open>
  \<open>shiftIR(instruction, readBack, endState)\<close> and \<open>shiftDR(tdi, bitLength, readBack,
  endState)\<close> of \<open>XilinxJTAG\<close>, named \<open>xShiftIR\<close> and \<open>xShiftDR\<close> here because the
  SVF executor has methods of the same names. The result is \<open>tdo\<close> (\<open>null\<close> without
  read-back) and the programmer.
\<close>

definition xShiftIR :: "byte \<Rightarrow> bool \<Rightarrow> xtap \<Rightarrow> xjtag \<Rightarrow> (byte list option \<times> xjtag) option"
  where
  "xShiftIR instruction readBack endState s =
     (case (if state s \<noteq> SHIFT_IR then setState SHIFT_IR s else Some s) of
        None \<Rightarrow> None
      | Some s1 \<Rightarrow>
          (let tdi = [instruction];
               tdo = (if readBack then Some [0] else None);
               lastBitExit = (endState \<noteq> SHIFT_IR);
               (tdo', f) = writeTDI (Some tdi) tdo 6 lastBitExit (ftdiDriver s1);
               s2 = s1\<lparr>ftdiDriver := f\<rparr>
           in if lastBitExit then
                (let s3 = s2\<lparr>state := EXIT1_IR\<rparr>
                 in if endState \<noteq> EXIT1_IR
                    then map_option (\<lambda>s4. (tdo', s4)) (setState endState s3)
                    else Some (tdo', s3))
              else Some (tdo', s2)))"

definition xShiftDR ::
  "byte list \<Rightarrow> int \<Rightarrow> bool \<Rightarrow> xtap \<Rightarrow> xjtag \<Rightarrow> (byte list option \<times> xjtag) option" where
  "xShiftDR tdi bitLength readBack endState s =
     (case (if state s \<noteq> SHIFT_DR then setState SHIFT_DR s else Some s) of
        None \<Rightarrow> None
      | Some s1 \<Rightarrow>
          (let tdo = (if readBack then Some (replicate (nat (ceilDiv8 bitLength)) 0) else None);
               lastBitExit = (endState \<noteq> SHIFT_DR);
               (tdo', f) = writeTDI (Some tdi) tdo bitLength lastBitExit (ftdiDriver s1);
               s2 = s1\<lparr>ftdiDriver := f\<rparr>
           in if lastBitExit then
                (let s3 = s2\<lparr>state := EXIT1_DR\<rparr>
                 in if endState \<noteq> EXIT1_DR
                    then map_option (\<lambda>s4. (tdo', s4)) (setState endState s3)
                    else Some (tdo', s3))
              else Some (tdo', s2)))"

definition toggleClk :: "int \<Rightarrow> xjtag \<Rightarrow> xjtag" where
  "toggleClk count s =
     (let tms = (if state s = TEST_LOGIC_RESET then 1 else 0)
      in s\<lparr>ftdiDriver := ftdiToggleClk tms 0 count (ftdiDriver s)\<rparr>)"

subsection \<open>bitReverse\<close>

definition reverseByte :: "byte \<Rightarrow> byte" where
  "reverseByte b =
     fst (foldl (\<lambda>(rev, byte) j. (push_bit 1 rev OR (byte AND 1), drop_bit 1 byte))
            (0, b) [0..<8])"

definition bitReverse :: "byte list \<Rightarrow> byte list" where
  "bitReverse data = map reverseByte data"

subsection \<open>programSRAM\<close>

text \<open>
  Step 3, the poll for INIT: at most \<open>n\<close> more rounds of \<open>shiftIR(BYPASS, true)\<close>; the
  loop leaves at the first status whose bit 0 is set. The result says whether INIT was
  seen.
\<close>

definition statusBit :: "byte list option \<Rightarrow> nat \<Rightarrow> bool" where
  "statusBit status k = (case status of None \<Rightarrow> False | Some t \<Rightarrow> bit (byteAt t 0) k)"

fun pollInit :: "nat \<Rightarrow> xjtag \<Rightarrow> (bool \<times> xjtag) option" where
  "pollInit 0 s = Some (False, s)"
| "pollInit (Suc n) s =
     (case xShiftIR BYPASS True RUN_TEST_IDLE s of
        None \<Rightarrow> None
      | Some (status, s1) \<Rightarrow> if statusBit status 0 then Some (True, s1) else pollInit n s1)"

text \<open>
  Step 7, the chunks of 4096 bytes, from chunk \<open>i\<close> on: every chunk but the last ends
  in \<open>SHIFT_DR\<close>, the last in \<open>UPDATE_DR\<close>.
\<close>

definition chunkOf :: "byte list \<Rightarrow> nat \<Rightarrow> byte list" where
  "chunkOf configData i =
     (let offset = i * 4096;
          remaining = length configData - offset;
          thisChunkSize = min 4096 remaining
      in take thisChunkSize (drop offset configData))"

function sendChunks :: "byte list \<Rightarrow> nat \<Rightarrow> nat \<Rightarrow> xjtag \<Rightarrow> xjtag option" where
  "sendChunks configData totalChunks i s =
     (if i < totalChunks then
        (let chunk = chunkOf configData i;
             isLast = (i = totalChunks - 1);
             endState = (if isLast then UPDATE_DR else SHIFT_DR)
         in case xShiftDR chunk (int (length chunk) * 8) False endState s of
              None \<Rightarrow> None
            | Some (tdo, s1) \<Rightarrow> sendChunks configData totalChunks (i + 1) s1)
      else Some s)"
  by pat_completeness auto
termination
  by (relation "measure (\<lambda>(c, n, i, s). n - i)") auto

declare sendChunks.simps [simp del]

text \<open>
  \<open>programSRAM\<close>. The JavaScript returns \<open>true\<close> in every case and reports INIT and
  DONE through the log; the model returns the two as booleans with the programmer.
  Progress reports and delays are left out.
\<close>

definition programSRAM :: "byte list \<Rightarrow> xjtag \<Rightarrow> (bool \<times> bool \<times> xjtag) option" where
  "programSRAM bitstream s =
     (let configData = bitReverse bitstream;
          s1 = goTestLogicReset s
      in case xShiftIR JPROGRAM False RUN_TEST_IDLE s1 of
           None \<Rightarrow> None
         | Some (t2, s2) \<Rightarrow>
         (case pollInit 100 s2 of
           None \<Rightarrow> None
         | Some (initDone, s3) \<Rightarrow>
         (case setState RUN_TEST_IDLE s3 of
           None \<Rightarrow> None
         | Some s4 \<Rightarrow>
         (case xShiftIR CFG_IN False RUN_TEST_IDLE (toggleClk 120000 s4) of
           None \<Rightarrow> None
         | Some (t5, s5) \<Rightarrow>
         (case setState SELECT_DR_SCAN s5 of
           None \<Rightarrow> None
         | Some s6 \<Rightarrow>
         (case sendChunks configData ((length configData + 4095) div 4096) 0 s6 of
           None \<Rightarrow> None
         | Some s7 \<Rightarrow>
         (case setState RUN_TEST_IDLE s7 of
           None \<Rightarrow> None
         | Some s8 \<Rightarrow>
         (case xShiftIR JSTART False UPDATE_IR s8 of
           None \<Rightarrow> None
         | Some (t9, s9) \<Rightarrow>
         (case xShiftIR BYPASS True RUN_TEST_IDLE (goTestLogicReset (toggleClk 2000 s9)) of
           None \<Rightarrow> None
         | Some (verifyStatus, s10) \<Rightarrow>
             Some (initDone, statusBit verifyStatus 5, s10))))))))))"

subsection \<open>Sequences of TAP operations\<close>

datatype tap_op =
    OpReset
  | OpShiftIR byte bool xtap
  | OpShiftDR "byte list" int bool xtap
  | OpSetState xtap
  | OpToggleClk int

fun doOp :: "tap_op \<Rightarrow> xjtag \<Rightarrow> xjtag option" where
  "doOp OpReset s = Some (goTestLogicReset s)"
| "doOp (OpShiftIR instruction readBack endState) s =
     map_option snd (xShiftIR instruction readBack endState s)"
| "doOp (OpShiftDR tdi bitLength readBack endState) s =
     map_option snd (xShiftDR tdi bitLength readBack endState s)"
| "doOp (OpSetState targetState) s = setState targetState s"
| "doOp (OpToggleClk count) s = Some (toggleClk count s)"

fun runOps :: "tap_op list \<Rightarrow> xjtag \<Rightarrow> xjtag option" where
  "runOps [] s = Some s"
| "runOps (op # ops) s = (case doOp op s of None \<Rightarrow> None | Some s1 \<Rightarrow> runOps ops s1)"

text \<open>
  The DR shifts of a payload, written without reference to the programmer's code: every
  byte of the payload mirrored (bit \<open>j\<close> of the byte sent is bit \<open>7 - j\<close> of the
  payload's byte; \<open>word_reverse\<close> is the library's mirror of a word), the mirrored
  payload cut into consecutive slices of 4096 bytes, \<open>N = ceil(length / 4096)\<close> shifts
  of eight bits per byte without read-back, only the last ending in \<open>UPDATE_DR\<close>.
\<close>

definition payloadShifts :: "byte list \<Rightarrow> tap_op list" where
  "payloadShifts bitstream =
     (let mirrored = map word_reverse bitstream;
          n = (length bitstream + 4095) div 4096
      in map (\<lambda>i. OpShiftDR (take 4096 (drop (i * 4096) mirrored))
                     (8 * int (length (take 4096 (drop (i * 4096) mirrored))))
                     False (if i + 1 = n then UPDATE_DR else SHIFT_DR))
           [0..<n])"

text \<open>
  The sequence of scenario F of the specification, with \<open>k\<close> polls.
\<close>

definition specSequence :: "byte list \<Rightarrow> nat \<Rightarrow> tap_op list" where
  "specSequence bitstream k =
     [OpReset, OpShiftIR JPROGRAM False RUN_TEST_IDLE] @
     replicate k (OpShiftIR BYPASS True RUN_TEST_IDLE) @
     [OpSetState RUN_TEST_IDLE, OpToggleClk 120000, OpShiftIR CFG_IN False RUN_TEST_IDLE] @
     payloadShifts bitstream @
     [OpSetState RUN_TEST_IDLE, OpShiftIR JSTART False UPDATE_IR, OpToggleClk 2000,
      OpReset, OpShiftIR BYPASS True RUN_TEST_IDLE]"

text \<open>
  The sequence of the code: as above, with the move to \<open>SELECT_DR_SCAN\<close> of step 6
  between \<open>CFG_IN\<close> and the first chunk.
\<close>

definition codeSequence :: "byte list \<Rightarrow> nat \<Rightarrow> tap_op list" where
  "codeSequence bitstream k =
     [OpReset, OpShiftIR JPROGRAM False RUN_TEST_IDLE] @
     replicate k (OpShiftIR BYPASS True RUN_TEST_IDLE) @
     [OpSetState RUN_TEST_IDLE, OpToggleClk 120000, OpShiftIR CFG_IN False RUN_TEST_IDLE,
      OpSetState SELECT_DR_SCAN] @
     payloadShifts bitstream @
     [OpSetState RUN_TEST_IDLE, OpShiftIR JSTART False UPDATE_IR, OpToggleClk 2000,
      OpReset, OpShiftIR BYPASS True RUN_TEST_IDLE]"

text \<open>
  A mocked device: the first BYPASS read after JPROGRAM gives \<open>0x21\<close> (five bits
  \<open>00001\<close> in the high bits of one byte, then bit 5 in bit 7 of the next), the read
  after JSTART gives \<open>0x20\<close>.
\<close>

definition mockedDevice :: xjtag where
  "mockedDevice = newXilinxJTAG (newFTDI\<lparr>rx := [[0x08, 0x80], [0x00, 0x80]]\<rparr>)"

section \<open>Properties of the path search\<close>

lemma pathLocal_all: "pathLocal s t"
  by (cases s; cases t; simp add: pathLocal_def findStatePath_def stateTransitions_def)

lemma findStatePath_reaches: "applyTMSSequence s (findStatePath s t) = t"
  using pathLocal_all [of s t] by (simp add: pathLocal_def Let_def)

lemma findStatePath_same: "findStatePath s s = []"
  by (simp add: findStatePath_def)

lemma findStatePath_step0:
  "length (findStatePath s t) \<le> Suc (length (findStatePath (fst (transitionRow s)) t))"
  using pathLocal_all [of s t] by (simp add: pathLocal_def Let_def)

lemma findStatePath_step1:
  "length (findStatePath s t) \<le> Suc (length (findStatePath (snd (transitionRow s)) t))"
  using pathLocal_all [of s t] by (simp add: pathLocal_def Let_def)

lemma findStatePath_head:
  assumes "s \<noteq> t"
  shows "findStatePath s t = 0 # findStatePath (fst (transitionRow s)) t \<or>
         (findStatePath s t = 1 # findStatePath (snd (transitionRow s)) t \<and>
          length (findStatePath s t) \<le> length (findStatePath (fst (transitionRow s)) t))"
  using pathLocal_all [of s t] assms by (simp add: pathLocal_def Let_def)

lemma findStatePath_lower:
  "applyTMSSequence s p = t \<Longrightarrow> length (findStatePath s t) \<le> length p"
proof (induction p arbitrary: s)
  case Nil
  then show ?case by (simp add: findStatePath_same)
next
  case (Cons tms rest)
  show ?case
  proof (cases "stateTransitions s tms")
    case None
    with Cons.prems have "applyTMSSequence s rest = t" by simp
    then have "length (findStatePath s t) \<le> length rest" by (rule Cons.IH)
    then show ?thesis by simp
  next
    case (Some n)
    with Cons.prems have "applyTMSSequence n rest = t" by simp
    then have le: "length (findStatePath n t) \<le> length rest" by (rule Cons.IH)
    from Some have "n = fst (transitionRow s) \<or> n = snd (transitionRow s)"
      by (auto simp: stateTransitions_def split: if_splits)
    then have "length (findStatePath s t) \<le> Suc (length (findStatePath n t))"
      using findStatePath_step0 [of s t] findStatePath_step1 [of s t] by auto
    with le show ?thesis by simp
  qed
qed

lemma findStatePath_lexmin:
  "applyTMSSequence s p = t \<Longrightarrow> length p = length (findStatePath s t) \<Longrightarrow>
   lexLeq (findStatePath s t) p"
proof (induction p arbitrary: s)
  case Nil
  then show ?case by simp
next
  case (Cons tms rest)
  from Cons.prems(2) have ne: "s \<noteq> t"
    by (auto simp: findStatePath_same)
  show ?case
  proof (cases "stateTransitions s tms")
    case None
    with Cons.prems have "applyTMSSequence s rest = t" by simp
    then have "length (findStatePath s t) \<le> length rest" by (rule findStatePath_lower)
    with Cons.prems(2) show ?thesis by simp
  next
    case (Some n)
    with Cons.prems have reach: "applyTMSSequence n rest = t" by simp
    then have low: "length (findStatePath n t) \<le> length rest" by (rule findStatePath_lower)
    from Some have tms01: "(tms = 0 \<and> n = fst (transitionRow s)) \<or> (tms = 1 \<and> n = snd (transitionRow s))"
      by (auto simp: stateTransitions_def split: if_splits)
    from findStatePath_head [OF ne] show ?thesis
    proof
      assume h0: "findStatePath s t = 0 # findStatePath (fst (transitionRow s)) t"
      from tms01 show ?thesis
      proof
        assume a: "tms = 0 \<and> n = fst (transitionRow s)"
        with h0 Cons.prems(2) have "length rest = length (findStatePath n t)" by simp
        with reach have "lexLeq (findStatePath n t) rest" by (rule Cons.IH)
        with a h0 show ?thesis by simp
      next
        assume "tms = 1 \<and> n = snd (transitionRow s)"
        with h0 show ?thesis by simp
      qed
    next
      assume h1: "findStatePath s t = 1 # findStatePath (snd (transitionRow s)) t \<and>
          length (findStatePath s t) \<le> length (findStatePath (fst (transitionRow s)) t)"
      from tms01 show ?thesis
      proof
        assume a: "tms = 0 \<and> n = fst (transitionRow s)"
        from h1 have "length (findStatePath s t) \<le> length (findStatePath (fst (transitionRow s)) t)"
          by blast
        also from a low have "\<dots> \<le> length rest" by simp
        finally have "length (findStatePath s t) \<le> length rest" .
        with Cons.prems(2) show ?thesis by simp
      next
        assume a: "tms = 1 \<and> n = snd (transitionRow s)"
        with h1 Cons.prems(2) have "length rest = length (findStatePath n t)" by simp
        with reach have "lexLeq (findStatePath n t) rest" by (rule Cons.IH)
        with a h1 show ?thesis by simp
      qed
    qed
  qed
qed

text \<open>
  Claim C1. For every pair of TAP states \<open>s1\<close>, \<open>s2\<close>: applying the TMS sequence
  \<open>findStatePath s1 s2\<close> from \<open>s1\<close> through the transition table ends at \<open>s2\<close>;
  no TMS sequence that leads from \<open>s1\<close> to \<open>s2\<close> is shorter; the sequence is empty
  when \<open>s1 = s2\<close>; and among the sequences of that shortest length that lead from
  \<open>s1\<close> to \<open>s2\<close> it is the least one in the order that prefers TMS=0 at the first
  position where two sequences differ.
\<close>

theorem findStatePath_shortest:
  "applyTMSSequence s1 (findStatePath s1 s2) = s2 \<and>
   (\<forall>p. applyTMSSequence s1 p = s2 \<longrightarrow> length (findStatePath s1 s2) \<le> length p) \<and>
   (s1 = s2 \<longrightarrow> findStatePath s1 s2 = []) \<and>
   (\<forall>p. applyTMSSequence s1 p = s2 \<and> length p = length (findStatePath s1 s2) \<longrightarrow>
        lexLeq (findStatePath s1 s2) p)"
  using findStatePath_reaches findStatePath_lower findStatePath_same findStatePath_lexmin
  by blast

text \<open>
  The same at concrete states: from \<open>RESET\<close> to \<open>DRSHIFT\<close> the path is
  \<open>[0, 1, 0, 0]\<close> (scenario A of the specification), shorter than the detour
  \<open>[0, 0, 1, 0, 0]\<close>.
\<close>

theorem findStatePath_shortest_witness:
  "applyTMSSequence RESET [0, 1, 0, 0] = DRSHIFT \<and>
   applyTMSSequence RESET [0, 0, 1, 0, 0] = DRSHIFT \<and>
   findStatePath RESET DRSHIFT = [0, 1, 0, 0] \<and>
   length (findStatePath RESET DRSHIFT) \<le> length [0, 0, 1, 0, 0 :: nat] \<and>
   applyTMSSequence DRPAUSE [1, 1, 0] = IDLE \<and>
   length [1, 1, 0 :: nat] = length (findStatePath DRPAUSE IDLE) \<and>
   lexLeq (findStatePath DRPAUSE IDLE) [1, 1, 0] \<and>
   findStatePath IDLE IDLE = []"
proof -
  have a: "applyTMSSequence RESET [0, 0, 1, 0, 0] = DRSHIFT"
    by (simp add: stateTransitions_def)
  have b: "applyTMSSequence DRPAUSE [1, 1, 0] = IDLE"
    by (simp add: stateTransitions_def)
  have c: "findStatePath RESET DRSHIFT = [0, 1, 0, 0]"
    by (simp add: findStatePath_def stateTransitions_def)
  have d: "length [1, 1, 0 :: nat] = length (findStatePath DRPAUSE IDLE)"
    by (simp add: findStatePath_def stateTransitions_def)
  from findStatePath_shortest [of RESET DRSHIFT] a
  have "length (findStatePath RESET DRSHIFT) \<le> length [0, 0, 1, 0, 0 :: nat]" by blast
  moreover from findStatePath_shortest [of DRPAUSE IDLE] b d
  have "lexLeq (findStatePath DRPAUSE IDLE) [1, 1, 0]" by blast
  moreover from findStatePath_shortest [of IDLE IDLE]
  have "findStatePath IDLE IDLE = []" by blast
  moreover have "applyTMSSequence RESET [0, 1, 0, 0] = DRSHIFT"
    by (simp add: stateTransitions_def)
  ultimately show ?thesis using a b c d by blast
qed

section \<open>Properties of the SVF executor\<close>

subsection \<open>verifyData\<close>

lemma verifyLoop_done: "\<not> int i < n \<Longrightarrow> verifyLoop t e m n i = None"
  by (subst verifyLoop.simps) simp

lemma verifyLoop_step:
  "int i < n \<Longrightarrow> byteMatches t e m i \<Longrightarrow> verifyLoop t e m n i = verifyLoop t e m n (i + 1)"
  by (subst verifyLoop.simps) (simp add: Let_def byteMatches_def)

lemma verifyLoop_throw:
  "int i < n \<Longrightarrow> \<not> byteMatches t e m i \<Longrightarrow>
   verifyLoop t e m n i =
     Some (VerificationFailed i (byteAt t i) (expectedByteAt e i) (maskByteAt m i))"
  by (subst verifyLoop.simps) (auto simp add: Let_def byteMatches_def)

lemma verifyLoop_None_iff:
  "verifyLoop t e m n i = None \<longleftrightarrow> (\<forall>j. i \<le> j \<and> int j < n \<longrightarrow> byteMatches t e m j)"
proof (induction "nat (n - int i)" arbitrary: i)
  case 0
  then have "\<not> int i < n" by simp
  then show ?case by (auto simp: verifyLoop_done)
next
  case (Suc k)
  then have lt: "int i < n" and k: "k = nat (n - int (i + 1))" by auto
  show ?case
  proof (cases "byteMatches t e m i")
    case True
    have "verifyLoop t e m n i = verifyLoop t e m n (i + 1)"
      using lt True by (rule verifyLoop_step)
    also have "\<dots> = None \<longleftrightarrow> (\<forall>j. i + 1 \<le> j \<and> int j < n \<longrightarrow> byteMatches t e m j)"
      using k by (rule Suc.hyps(1))
    also have "\<dots> \<longleftrightarrow> (\<forall>j. i \<le> j \<and> int j < n \<longrightarrow> byteMatches t e m j)"
    proof
      assume a: "\<forall>j. i + 1 \<le> j \<and> int j < n \<longrightarrow> byteMatches t e m j"
      show "\<forall>j. i \<le> j \<and> int j < n \<longrightarrow> byteMatches t e m j"
      proof (intro allI impI)
        fix j assume b: "i \<le> j \<and> int j < n"
        show "byteMatches t e m j"
        proof (cases "j = i")
          case True with \<open>byteMatches t e m i\<close> show ?thesis by simp
        next
          case False with a b show ?thesis by simp
        qed
      qed
    next
      assume "\<forall>j. i \<le> j \<and> int j < n \<longrightarrow> byteMatches t e m j"
      then show "\<forall>j. i + 1 \<le> j \<and> int j < n \<longrightarrow> byteMatches t e m j" by simp
    qed
    finally show ?thesis .
  next
    case False
    have "verifyLoop t e m n i \<noteq> None"
      using verifyLoop_throw [OF lt False] by simp
    moreover have "\<not> (\<forall>j. i \<le> j \<and> int j < n \<longrightarrow> byteMatches t e m j)"
      using False lt by blast
    ultimately show ?thesis by blast
  qed
qed

text \<open>
  Claim C10. \<open>verifyData(tdo, expected, mask, bitLength)\<close> throws if and only if
  there is a byte index \<open>i < ceil(bitLength / 8)\<close> whose mask byte is not zero and at
  which \<open>tdo[i] & mask[i]\<close> differs from \<open>expected[i] & mask[i]\<close>, where a missing
  mask is \<open>0xFF\<close> at every index, a mask byte of 0 (also one read past the end of the
  mask) skips the index, and missing \<open>tdo\<close> or \<open>expected\<close> bytes are 0. When it
  does not throw it returns with the engine's state as it was.
\<close>

theorem verifyData_throws_iff:
  "((\<exists>e. verifyData s tdo expected msk bitLength = Inl e) \<longleftrightarrow>
      (\<exists>i. int i < ceilDiv8 bitLength \<and>
           (case msk of None \<Rightarrow> 0xFF | Some m \<Rightarrow> if i < length m then m ! i else 0) \<noteq> 0 \<and>
           ((case tdo of None \<Rightarrow> 0 | Some t \<Rightarrow> if i < length t then t ! i else 0) AND
            (case msk of None \<Rightarrow> 0xFF | Some m \<Rightarrow> if i < length m then m ! i else 0)) \<noteq>
           ((case expected of None \<Rightarrow> 0 | Some x \<Rightarrow> if i < length x then x ! i else 0) AND
            (case msk of None \<Rightarrow> 0xFF | Some m \<Rightarrow> if i < length m then m ! i else 0)))) \<and>
   ((\<forall>e. verifyData s tdo expected msk bitLength \<noteq> Inl e) \<longrightarrow>
      verifyData s tdo expected msk bitLength = Inr s)"
proof -
  let ?t = "case tdo of None \<Rightarrow> [] | Some t \<Rightarrow> t"
  have m: "(case msk of None \<Rightarrow> 0xFF | Some m \<Rightarrow> if i < length m then m ! i else 0) = maskByteAt msk i" for i
    by (simp add: maskByteAt_def byteAt_def split: option.splits)
  have t: "(case tdo of None \<Rightarrow> 0 | Some t \<Rightarrow> if i < length t then t ! i else 0) = byteAt ?t i" for i
    by (simp add: byteAt_def split: option.splits)
  have x: "(case expected of None \<Rightarrow> 0 | Some x \<Rightarrow> if i < length x then x ! i else 0) = expectedByteAt expected i" for i
    by (simp add: expectedByteAt_def byteAt_def split: option.splits)
  have nz: "\<not> byteMatches ?t expected msk i \<Longrightarrow> maskByteAt msk i \<noteq> 0" for i
    by (auto simp: byteMatches_def)
  have "(\<exists>e. verifyData s tdo expected msk bitLength = Inl e) \<longleftrightarrow>
        verifyLoop ?t expected msk (ceilDiv8 bitLength) 0 \<noteq> None"
    by (auto simp: verifyData_def Let_def split: option.splits)
  also have "\<dots> \<longleftrightarrow> (\<exists>i. int i < ceilDiv8 bitLength \<and> \<not> byteMatches ?t expected msk i)"
    by (simp add: verifyLoop_None_iff)
  also have "\<dots> \<longleftrightarrow> (\<exists>i. int i < ceilDiv8 bitLength \<and> maskByteAt msk i \<noteq> 0 \<and>
        (byteAt ?t i AND maskByteAt msk i) \<noteq> (expectedByteAt expected i AND maskByteAt msk i))"
    using nz by (auto simp: byteMatches_def)
  finally have first: "(\<exists>e. verifyData s tdo expected msk bitLength = Inl e) \<longleftrightarrow>
     (\<exists>i. int i < ceilDiv8 bitLength \<and> maskByteAt msk i \<noteq> 0 \<and>
        (byteAt ?t i AND maskByteAt msk i) \<noteq> (expectedByteAt expected i AND maskByteAt msk i))" .
  have second: "(\<forall>e. verifyData s tdo expected msk bitLength \<noteq> Inl e) \<longrightarrow>
      verifyData s tdo expected msk bitLength = Inr s"
    by (auto simp: verifyData_def Let_def split: option.splits)
  show ?thesis using first second unfolding m t x by blast
qed

text \<open>
  Both directions at 24 bits: a mask that hides the differing low bits of byte 2 lets the
  call return; with no mask the difference at byte 2 throws.
\<close>

theorem verifyData_throws_iff_witness:
  "verifyData newJTAGStateMachine (Some [1, 2, 3]) (Some [1, 2, 4]) (Some [0xFF, 0xFF, 0xF8]) 24
     = Inr newJTAGStateMachine \<and>
   verifyData newJTAGStateMachine (Some [1, 2, 3]) (Some [1, 2, 4]) None 24
     = Inl (VerificationFailed 2 3 4 0xFF)"
proof -
  have a: "verifyData newJTAGStateMachine (Some [1, 2, 3]) (Some [1, 2, 4]) None 24
     = Inl (VerificationFailed 2 3 4 0xFF)"
    by (simp add: verifyData_def ceilDiv8_def verifyLoop.simps maskByteAt_def expectedByteAt_def byteAt_def)
  have b: "\<forall>e. verifyData newJTAGStateMachine (Some [1, 2, 3]) (Some [1, 2, 4]) (Some [0xFF, 0xFF, 0xF8]) 24 \<noteq> Inl e"
    by (simp add: verifyData_def ceilDiv8_def verifyLoop.simps maskByteAt_def expectedByteAt_def byteAt_def)
  from verifyData_throws_iff [of newJTAGStateMachine "Some [1, 2, 3]" "Some [1, 2, 4]" "Some [0xFF, 0xFF, 0xF8]" 24] b
  have "verifyData newJTAGStateMachine (Some [1, 2, 3]) (Some [1, 2, 4]) (Some [0xFF, 0xFF, 0xF8]) 24
     = Inr newJTAGStateMachine" by blast
  with a show ?thesis by simp
qed

subsection \<open>Leaving a shift state\<close>

lemma applyTMSSequence_append:
  "applyTMSSequence st (a @ b) = applyTMSSequence (applyTMSSequence st a) b"
  by (induction a arbitrary: st) (simp_all split: option.splits)

lemma stay_in_shift:
  assumes "sh = IRSHIFT \<or> sh = DRSHIFT"
  shows "applyTMSSequence sh (replicate j 0) = sh"
  using assms by (induction j) (auto simp: stateTransitions_def)

lemma exit_tms:
  assumes "sh = IRSHIFT \<or> sh = DRSHIFT" and "0 < k"
  shows "applyTMSSequence sh ((replicate k 0)[k - 1 := 1]) = exitState sh"
proof -
  from assms(2) obtain j where k: "k = Suc j" by (cases k) auto
  have "(replicate k (0::nat))[k - 1 := 1] = replicate j 0 @ [1]"
    unfolding k by (induction j) simp_all
  then show ?thesis
    using assms(1) stay_in_shift [OF assms(1), of j]
    by (auto simp: applyTMSSequence_append stateTransitions_def exitState_def)
qed

subsection \<open>End of shift\<close>

lemma findStatePathNamed_key:
  "stateNamed n = Some t \<Longrightarrow> findStatePathNamed s n = findStatePath s t"
  by (auto simp: findStatePathNamed_def findStatePath_def)

lemma findStatePathNamed_unknown:
  "stateNamed n = None \<Longrightarrow> findStatePathNamed s n = []"
  by (cases s) (simp_all add: findStatePathNamed_def stateTransitions_def)

lemma stateNamed_shift:
  "stateNamed ''IRSHIFT'' = Some IRSHIFT" "stateNamed ''DRSHIFT'' = Some DRSHIFT"
  by (simp_all add: stateNamed_def)

lemma moveToState_key:
  assumes "stateNamed n = Some t"
  shows "currentState (moveToState n s) = t"
proof -
  have p: "findStatePathNamed (currentState s) n = findStatePath (currentState s) t"
    by (rule findStatePathNamed_key [OF assms])
  have r: "applyTMSSequence (currentState s) (findStatePath (currentState s) t) = t"
    by (rule findStatePath_reaches)
  show ?thesis
  proof (cases "findStatePath (currentState s) t = []")
    case True
    with r p show ?thesis by (simp add: moveToState_def)
  next
    case False
    with r p show ?thesis by (simp add: moveToState_def Let_def)
  qed
qed

lemma moveToState_unknown:
  "stateNamed n = None \<Longrightarrow> moveToState n s = s"
  by (simp add: moveToState_def findStatePathNamed_unknown)

lemma moveToState_ends:
  "endIRState (moveToState t s) = endIRState s" "endDRState (moveToState t s) = endDRState s"
  by (simp_all add: moveToState_def Let_def)

lemma shiftData_ends:
  assumes "shiftData fast tdi len capture s = Inr s'"
  shows "endIRState s' = endIRState s" "endDRState s' = endDRState s"
  using assms by (auto simp: shiftData_def Let_def split: option.splits if_splits)

lemma shiftData_returns:
  assumes "\<forall>n. len = Some n \<longrightarrow> 0 \<le> n"
  shows "\<exists>s'. shiftData fast tdi len capture s = Inr s'"
  using assms by (auto simp: shiftData_def Let_def split: option.splits)

text \<open>
  With an end state whose name is a key of the table, spelled as the table spells it,
  every SIR and SDR ends in it.
\<close>

lemma shiftIR_end:
  assumes "\<forall>n. cmd_length cmd = Some n \<longrightarrow> 0 \<le> n" and e: "stateNamed (endIRState s) = Some e"
  shows "\<exists>s'. shiftIR fast cmd s = Inr s' \<and> currentState s' = e"
proof (cases "cmd_tdi cmd")
  case None
  then show ?thesis
    using moveToState_key [of "endIRState s" e "moveToState ''IRSHIFT'' s"] e
    by (simp add: shiftIR_def Let_def moveToState_ends)
next
  case (Some tdi)
  from shiftData_returns [OF assms(1)]
  obtain s2 where s2: "shiftData fast tdi (cmd_length cmd) False (moveToState ''IRSHIFT'' s) = Inr s2"
    by blast
  from shiftData_ends(1) [OF s2] have "endIRState s2 = endIRState s"
    by (simp add: moveToState_ends)
  with Some s2 e show ?thesis
    using moveToState_key [of "endIRState s" e s2]
    by (simp add: shiftIR_def Let_def)
qed

lemma shiftDR_end:
  assumes "\<forall>n. cmd_length cmd = Some n \<longrightarrow> 0 \<le> n" and e: "stateNamed (endDRState s) = Some e"
  shows "\<exists>s'. shiftDR fast cmd s = Inr s' \<and> currentState s' = e"
proof (cases "cmd_tdi cmd")
  case None
  then show ?thesis
    using moveToState_key [of "endDRState s" e "moveToState ''DRSHIFT'' s"] e
    by (simp add: shiftDR_def Let_def moveToState_ends)
next
  case (Some tdi)
  from shiftData_returns [OF assms(1)]
  obtain s2 where s2: "shiftData fast tdi (cmd_length cmd) False (moveToState ''DRSHIFT'' s) = Inr s2"
    by blast
  from shiftData_ends(2) [OF s2] have "endDRState s2 = endDRState s"
    by (simp add: moveToState_ends)
  with Some s2 e show ?thesis
    using moveToState_key [of "endDRState s" e s2]
    by (simp add: shiftDR_def Let_def)
qed

lemma shift_exits_to_key:
  assumes "cmd_type cmd = ''SIR'' \<or> cmd_type cmd = ''SDR''"
    and "\<forall>n. cmd_length cmd = Some n \<longrightarrow> 0 \<le> n"
    and "stateNamed (if cmd_type cmd = ''SIR'' then endIRState s else endDRState s) = Some e"
  shows "\<exists>s'. executeCommand fast cmd s = Inr s' \<and> currentState s' = e"
  using assms(1)
proof
  assume t: "cmd_type cmd = ''SIR''"
  with assms(3) have "stateNamed (endIRState s) = Some e" by simp
  from shiftIR_end [OF assms(2) this] t show ?thesis by (simp add: executeCommand_def)
next
  assume t: "cmd_type cmd = ''SDR''"
  with assms(3) have "stateNamed (endDRState s) = Some e" by simp
  from shiftDR_end [OF assms(2) this] t show ?thesis by (simp add: executeCommand_def)
qed

text \<open>
  With an end state whose name is no key, a command with a payload leaves the engine
  where the last payload bit has put it.
\<close>

lemma shift_stays_in_exit:
  assumes "cmd_type cmd = ''SIR'' \<or> cmd_type cmd = ''SDR''"
    and "cmd_tdi cmd = Some tdi" and "cmd_length cmd = Some n" and "1 \<le> n"
    and "stateNamed (if cmd_type cmd = ''SIR'' then endIRState s else endDRState s) = None"
  shows "\<exists>s'. executeCommand fast cmd s = Inr s' \<and>
           currentState s' = (if cmd_type cmd = ''SIR'' then IREXIT1 else DREXIT1)"
  using assms(1)
proof
  assume t: "cmd_type cmd = ''SIR''"
  have st: "currentState (moveToState ''IRSHIFT'' s) = IRSHIFT"
    by (rule moveToState_key [OF stateNamed_shift(1)])
  have k: "0 < nat n" using assms(4) by simp
  have x: "applyTMSSequence IRSHIFT ((replicate (nat n) 0)[nat n - 1 := 1]) = IREXIT1"
    using exit_tms [of IRSHIFT "nat n"] k by (simp add: exitState_def)
  obtain s2 where s2: "shiftData fast tdi (Some n) False (moveToState ''IRSHIFT'' s) = Inr s2"
      "currentState s2 = IREXIT1"
    using assms(4) st x by (cases "n > fast") (simp_all add: shiftData_def Let_def)
  from shiftData_ends(1) [OF s2(1)] have "endIRState s2 = endIRState s"
    by (simp add: moveToState_ends)
  with assms(5) t have "moveToState (endIRState s2) s2 = s2"
    by (simp add: moveToState_unknown)
  with s2 t assms(2,3) show ?thesis
    by (simp add: executeCommand_def shiftIR_def Let_def)
next
  assume t: "cmd_type cmd = ''SDR''"
  have st: "currentState (moveToState ''DRSHIFT'' s) = DRSHIFT"
    by (rule moveToState_key [OF stateNamed_shift(2)])
  have k: "0 < nat n" using assms(4) by simp
  have x: "applyTMSSequence DRSHIFT ((replicate (nat n) 0)[nat n - 1 := 1]) = DREXIT1"
    using exit_tms [of DRSHIFT "nat n"] k by (simp add: exitState_def)
  obtain s2 where s2: "shiftData fast tdi (Some n) False (moveToState ''DRSHIFT'' s) = Inr s2"
      "currentState s2 = DREXIT1"
    using assms(4) st x by (cases "n > fast") (simp_all add: shiftData_def Let_def)
  from shiftData_ends(2) [OF s2(1)] have "endDRState s2 = endDRState s"
    by (simp add: moveToState_ends)
  with assms(5) t have "moveToState (endDRState s2) s2 = s2"
    by (simp add: moveToState_unknown)
  with s2 t assms(2,3) show ?thesis
    by (simp add: executeCommand_def shiftDR_def Let_def)
qed

text \<open>
  Claim C3. After every executed SIR or SDR command the engine's tracked state is the
  configured end state (\<open>endIRState\<close> for SIR, \<open>endDRState\<close> for SDR). The code does
  this for an end state written as the table writes it (\<open>shift_exits_to_key\<close>), and
  misses it for the SVF text \<open>ENDIR irpause; SIR 6 TDI (3F);\<close>. \<open>parseEnd\<close> hands the
  token \<open>irpause\<close> on as written, \<open>executeCommand\<close> stores it, and after the six payload
  bits \<open>moveToState\<close> finds no path to it: the engine makes no further move and its
  tracked state stays \<open>IREXIT1\<close>, with either threshold of the byte path. Upper-cased,
  as \<open>parseRunTest\<close> does with its state names, the same token is the key \<open>IRPAUSE\<close>, and
  the same SIR ends there.
\<close>

theorem end_state_lower_case:
  "executeCommand 64 (parseEnd ''ENDIR'' [''ENDIR'', ''irpause'']) newJTAGStateMachine =
     Inr (newJTAGStateMachine\<lparr>endIRState := ''irpause''\<rparr>) \<and>
   parseHexData ''(3F)'' 6 = Inr (Some [0x3F]) \<and>
   executeCommand 64 sir6 (newJTAGStateMachine\<lparr>endIRState := ''irpause''\<rparr>) =
     Inr (newJTAGStateMachine\<lparr>endIRState := ''irpause'', currentState := IREXIT1,
            usb := [ShiftBits [0, 0, 0, 0, 0] [0, 1, 1, 0, 0] 5 False,
                    ShiftBits [1, 1, 1, 1, 1, 1] [0, 0, 0, 0, 0, 1] 6 False]\<rparr>) \<and>
   executeCommand 1000 sir6 (newJTAGStateMachine\<lparr>endIRState := ''irpause''\<rparr>) =
     Inr (newJTAGStateMachine\<lparr>endIRState := ''irpause'', currentState := IREXIT1,
            usb := [ShiftBits [0, 0, 0, 0, 0] [0, 1, 1, 0, 0] 5 False,
                    ShiftBits [1, 1, 1, 1, 1, 1] [0, 0, 0, 0, 0, 1] 6 False]\<rparr>) \<and>
   stateNamed ''irpause'' = None \<and>
   stateNamed (toUpperCase ''irpause'') = Some IRPAUSE \<and>
   executeCommand 64 sir6 (newJTAGStateMachine\<lparr>endIRState := toUpperCase ''irpause''\<rparr>) =
     Inr (newJTAGStateMachine\<lparr>endIRState := ''IRPAUSE'', currentState := IRPAUSE,
            usb := [ShiftBits [0, 0, 0, 0, 0] [0, 1, 1, 0, 0] 5 False,
                    ShiftBits [1, 1, 1, 1, 1, 1] [0, 0, 0, 0, 0, 1] 6 False,
                    ShiftBits [0] [0] 1 False]\<rparr>)"
proof -
  have a: "executeCommand 64 (parseEnd ''ENDIR'' [''ENDIR'', ''irpause'']) newJTAGStateMachine =
      Inr (newJTAGStateMachine\<lparr>endIRState := ''irpause''\<rparr>)"
    by (simp add: executeCommand_def parseEnd_def orElse_def)
  have b: "parseHexData ''(3F)'' 6 = Inr (Some [0x3F])"
    by code_simp
  have c: "executeCommand 64 sir6 (newJTAGStateMachine\<lparr>endIRState := ''irpause''\<rparr>) =
     Inr (newJTAGStateMachine\<lparr>endIRState := ''irpause'', currentState := IREXIT1,
            usb := [ShiftBits [0, 0, 0, 0, 0] [0, 1, 1, 0, 0] 5 False,
                    ShiftBits [1, 1, 1, 1, 1, 1] [0, 0, 0, 0, 0, 1] 6 False]\<rparr>)"
    by code_simp
  have d: "executeCommand 1000 sir6 (newJTAGStateMachine\<lparr>endIRState := ''irpause''\<rparr>) =
     Inr (newJTAGStateMachine\<lparr>endIRState := ''irpause'', currentState := IREXIT1,
            usb := [ShiftBits [0, 0, 0, 0, 0] [0, 1, 1, 0, 0] 5 False,
                    ShiftBits [1, 1, 1, 1, 1, 1] [0, 0, 0, 0, 0, 1] 6 False]\<rparr>)"
    by code_simp
  have e: "stateNamed ''irpause'' = None" "stateNamed (toUpperCase ''irpause'') = Some IRPAUSE"
    by code_simp+
  have f: "executeCommand 64 sir6 (newJTAGStateMachine\<lparr>endIRState := toUpperCase ''irpause''\<rparr>) =
     Inr (newJTAGStateMachine\<lparr>endIRState := ''IRPAUSE'', currentState := IRPAUSE,
            usb := [ShiftBits [0, 0, 0, 0, 0] [0, 1, 1, 0, 0] 5 False,
                    ShiftBits [1, 1, 1, 1, 1, 1] [0, 0, 0, 0, 0, 1] 6 False,
                    ShiftBits [0] [0] 1 False]\<rparr>)"
    by code_simp
  from a b c d e f show ?thesis by simp
qed

subsection \<open>What SIR and SDR shift\<close>

lemma callBits_nav:
  "callBits (ShiftBits (replicate (length p) 0) p (int (length p)) False) = navBits p"
  by (rule nth_equalityI) (simp_all add: navBits_def bitAt_def)

lemma shiftedIn_append:
  "shiftedIn sh st (a @ b) =
     shiftedIn sh st a @ shiftedIn sh (applyTMSSequence st (map snd a)) b"
proof (induction a arbitrary: st)
  case Nil
  then show ?case by simp
next
  case (Cons x a)
  obtain d m where x: "x = (d, m)" by (cases x)
  show ?case using Cons.IH [of "applyTMSSequence st [m]"]
    by (simp add: x split: option.splits)
qed

lemma findStatePath_bits: "m \<in> set (findStatePath s t) \<Longrightarrow> m = 0 \<or> m = 1"
proof (induction "length (findStatePath s t)" arbitrary: s)
  case 0
  then show ?case by simp
next
  case (Suc k)
  then have ne: "s \<noteq> t" by (auto simp: findStatePath_same)
  from findStatePath_head [OF ne] show ?case
  proof
    assume h: "findStatePath s t = 0 # findStatePath (fst (transitionRow s)) t"
    with Suc.hyps(2) have "k = length (findStatePath (fst (transitionRow s)) t)" by simp
    from Suc.hyps(1) [OF this] h Suc.prems show ?thesis by auto
  next
    assume h: "findStatePath s t = 1 # findStatePath (snd (transitionRow s)) t \<and>
        length (findStatePath s t) \<le> length (findStatePath (fst (transitionRow s)) t)"
    with Suc.hyps(2) have "k = length (findStatePath (snd (transitionRow s)) t)" by simp
    from Suc.hyps(1) [OF this] h Suc.prems show ?thesis by auto
  qed
qed

lemma navBits_snd: "map snd (navBits (findStatePath s t)) = findStatePath s t"
proof -
  have "(if m \<noteq> 0 then 1 else 0) = m" if "m \<in> set (findStatePath s t)" for m
    using findStatePath_bits [OF that] by auto
  then show ?thesis by (simp add: navBits_def map_idI comp_def)
qed

lemma nav_to_shift_clean:
  assumes "sh = IRSHIFT \<or> sh = DRSHIFT"
  shows "shiftedIn sh st (navBits (findStatePath st sh)) = []"
  using assms
  by (cases st; auto simp add: navBits_def findStatePath_def stateTransitions_def)

lemma nav_from_exit_clean:
  assumes "sh = IRSHIFT \<or> sh = DRSHIFT"
  shows "shiftedIn sh (exitState sh) (navBits (findStatePath (exitState sh) e)) = []"
  using assms
  by (cases e; auto simp add: navBits_def findStatePath_def stateTransitions_def exitState_def)


lemma length_bytesToBits: "length (bytesToBits tdi k) = k"
  by (simp add: bytesToBits_def)

lemma bytesToBits_nth:
  "i < k \<Longrightarrow> bytesToBits tdi k ! i = unat (drop_bit (i mod 8) (byteAt tdi (i div 8)) AND 1)"
  by (simp add: bytesToBits_def)

lemma unat_and_one: "unat ((x :: byte) AND 1) = 0 \<or> unat (x AND 1) = 1"
  by (cases "odd x") (simp_all add: and_one_eq mod_2_eq_odd)

lemma bitAt_bytesToBits:
  "i < k \<Longrightarrow> bitAt (bytesToBits tdi k) i = bytesToBits tdi k ! i"
  using unat_and_one [of "drop_bit (i mod 8) (byteAt tdi (i div 8))"]
  by (auto simp: bitAt_def length_bytesToBits bytesToBits_nth)

lemma length_withTMS: "length (withTMS bits e) = length bits"
  by (cases "bits = []") (simp_all add: withTMS_def)

lemma withTMS_nth:
  assumes "i < length bits"
  shows "withTMS bits True ! i = (bits ! i, if i + 1 = length bits then 1 else 0)"
proof -
  from assms have ne: "bits \<noteq> []" by auto
  show ?thesis
  proof (cases "i + 1 = length bits")
    case True
    then have "i = length (map (\<lambda>b. (b, 0::nat)) (butlast bits))" by simp
    then have "(map (\<lambda>b. (b, 0::nat)) (butlast bits) @ [(last bits, 1)]) ! i = (last bits, 1)"
      by (metis nth_append_length)
    moreover have "length bits - 1 = i" using True by simp
    then have "last bits = bits ! i" using last_conv_nth [OF ne] by simp
    ultimately show ?thesis using True ne by (simp add: withTMS_def)
  next
    case False
    with assms have lt: "i < length (butlast bits)" by simp
    then show ?thesis using False ne by (simp add: withTMS_def nth_append nth_butlast)
  qed
qed

lemma callBits_ShiftBytes:
  "callBits (ShiftBytes tdi n) = withTMS (bytesToBits tdi (nat n)) True"
proof (rule nth_equalityI)
  show "length (callBits (ShiftBytes tdi n)) = length (withTMS (bytesToBits tdi (nat n)) True)"
    by (simp add: length_withTMS length_bytesToBits)
next
  fix i assume "i < length (callBits (ShiftBytes tdi n))"
  then have i: "i < nat n" by simp
  then show "callBits (ShiftBytes tdi n) ! i = withTMS (bytesToBits tdi (nat n)) True ! i"
    by (simp add: withTMS_nth length_bytesToBits bytesToBits_nth)
qed

lemma callBits_ShiftBits_payload:
  "callBits (ShiftBits (bytesToBits tdi k) ((replicate k 0)[k - 1 := 1]) (int k) capture) =
     withTMS (bytesToBits tdi k) True"
proof (rule nth_equalityI)
  show "length (callBits (ShiftBits (bytesToBits tdi k) ((replicate k 0)[k - 1 := 1]) (int k) capture)) =
        length (withTMS (bytesToBits tdi k) True)"
    by (simp add: length_withTMS length_bytesToBits)
next
  fix i
  assume "i < length (callBits (ShiftBits (bytesToBits tdi k) ((replicate k 0)[k - 1 := 1]) (int k) capture))"
  then have i: "i < k" by simp
  have t: "bitAt ((replicate k 0)[k - 1 := 1]) i = (if i + 1 = k then 1 else 0)"
    using i by (auto simp: bitAt_def nth_list_update)
  show "callBits (ShiftBits (bytesToBits tdi k) ((replicate k 0)[k - 1 := 1]) (int k) capture) ! i =
        withTMS (bytesToBits tdi k) True ! i"
    using i t by (simp add: withTMS_nth length_bytesToBits bitAt_bytesToBits)
qed

lemma shiftedIn_zeros:
  assumes "sh = IRSHIFT \<or> sh = DRSHIFT"
  shows "shiftedIn sh sh (map (\<lambda>b. (b, 0)) xs @ r) = map (\<lambda>b. (b, 0)) xs @ shiftedIn sh sh r"
  using assms by (induction xs) (auto simp: stateTransitions_def)

lemma shiftedIn_payload:
  assumes "sh = IRSHIFT \<or> sh = DRSHIFT"
  shows "shiftedIn sh sh (withTMS bits True) = withTMS bits True"
  using shiftedIn_zeros [OF assms, of "butlast bits" "[(last bits, 1)]"]
  by (simp add: withTMS_def)

lemma payload_exits:
  assumes "sh = IRSHIFT \<or> sh = DRSHIFT" and "bits \<noteq> []"
  shows "applyTMSSequence sh (map snd (withTMS bits True)) = exitState sh"
proof -
  have "map snd (withTMS bits True) = replicate (length (butlast bits)) 0 @ [1]"
    using assms(2) by (simp add: withTMS_def comp_def map_replicate_const)
  then show ?thesis
    using assms(1) stay_in_shift [OF assms(1), of "length (butlast bits)"]
    by (auto simp: applyTMSSequence_append stateTransitions_def exitState_def)
qed

lemma moveToState_calls:
  "\<exists>calls. usb (moveToState t s) = usb s @ calls \<and>
           concat (map callBits calls) = navBits (findStatePathNamed (currentState s) t)"
proof (cases "findStatePathNamed (currentState s) t = []")
  case True
  then show ?thesis by (simp add: moveToState_def navBits_def)
next
  case False
  then have "usb (moveToState t s) =
      usb s @ [ShiftBits (replicate (length (findStatePathNamed (currentState s) t)) 0)
                 (findStatePathNamed (currentState s) t)
                 (int (length (findStatePathNamed (currentState s) t))) False]"
    by (simp add: moveToState_def Let_def)
  then show ?thesis using callBits_nav by force
qed

text \<open>
  The navigation to the end state, whatever its name: a path from the exit state that
  does not pass through the shift state, or no path at all.
\<close>

lemma nav_to_end_clean:
  assumes "sh = IRSHIFT \<or> sh = DRSHIFT"
  shows "shiftedIn sh (exitState sh) (navBits (findStatePathNamed (exitState sh) e)) = []"
proof (cases "stateNamed e")
  case None
  then show ?thesis by (simp add: findStatePathNamed_unknown navBits_def)
next
  case (Some t)
  then show ?thesis
    using nav_from_exit_clean [OF assms, of t] by (simp add: findStatePathNamed_key)
qed

lemma shiftData_payload:
  assumes sh: "sh = IRSHIFT \<or> sh = DRSHIFT" and st: "currentState s = sh" and n: "1 \<le> n"
  shows "\<exists>s' call. shiftData fast tdi (Some n) False s = Inr s' \<and>
           usb s' = usb s @ [call] \<and>
           callBits call = withTMS (bytesToBits tdi (nat n)) True \<and>
           currentState s' = exitState sh \<and>
           endIRState s' = endIRState s \<and> endDRState s' = endDRState s"
proof (cases "n > fast")
  case True
  with n have "shiftData fast tdi (Some n) False s =
      Inr (s\<lparr>usb := usb s @ [ShiftBytes tdi n],
             currentState := (if currentState s = DRSHIFT then DREXIT1 else IREXIT1)\<rparr>)"
    by (simp add: shiftData_def)
  moreover have "(if currentState s = DRSHIFT then DREXIT1 else IREXIT1) = exitState sh"
    using st by (simp add: exitState_def)
  ultimately show ?thesis using callBits_ShiftBytes [of tdi n] by simp
next
  case False
  from n have k: "0 < nat n" "int (nat n) = n" by simp_all
  from False n have "shiftData fast tdi (Some n) False s =
      Inr (s\<lparr>usb := usb s @ [ShiftBits (bytesToBits tdi (nat n))
                                ((replicate (nat n) 0)[nat n - 1 := 1]) n False],
             currentState := applyTMSSequence (currentState s)
                               ((replicate (nat n) 0)[nat n - 1 := 1])\<rparr>)"
    by (simp add: shiftData_def Let_def)
  moreover have "applyTMSSequence (currentState s) ((replicate (nat n) 0)[nat n - 1 := 1]) =
      exitState sh"
    using exit_tms [OF sh k(1)] st by simp
  moreover have "callBits (ShiftBits (bytesToBits tdi (nat n))
        ((replicate (nat n) 0)[nat n - 1 := 1]) n False) = withTMS (bytesToBits tdi (nat n)) True"
    using callBits_ShiftBits_payload [of tdi "nat n" False] k(2) by simp
  ultimately show ?thesis by simp
qed

lemma shift_payload_only:
  assumes sh: "sh = IRSHIFT \<or> sh = DRSHIFT" and nm: "stateNamed shn = Some sh" and n: "1 \<le> n"
  shows "\<exists>s2 s3 calls.
           shiftData fast tdi (Some n) False (moveToState shn s) = Inr s2 \<and>
           s3 = moveToState e s2 \<and>
           endIRState s2 = endIRState s \<and> endDRState s2 = endDRState s \<and>
           usb s3 = usb s @ calls \<and>
           shiftedIn sh (currentState s) (concat (map callBits calls)) =
             withTMS (bytesToBits tdi (nat n)) True"
proof -
  let ?s1 = "moveToState shn s"
  let ?B = "withTMS (bytesToBits tdi (nat n)) True"
  obtain c1 where c1: "usb ?s1 = usb s @ c1"
      "concat (map callBits c1) = navBits (findStatePath (currentState s) sh)"
    using moveToState_calls [of shn s] findStatePathNamed_key [OF nm] by auto
  have st1: "currentState ?s1 = sh" by (rule moveToState_key [OF nm])
  obtain s2 call where s2: "shiftData fast tdi (Some n) False ?s1 = Inr s2"
      "usb s2 = usb ?s1 @ [call]" "callBits call = ?B"
      "currentState s2 = exitState sh"
      "endIRState s2 = endIRState ?s1" "endDRState s2 = endDRState ?s1"
    using shiftData_payload [OF sh st1 n, of fast tdi] by blast
  obtain c3 where c3: "usb (moveToState e s2) = usb s2 @ c3"
      "concat (map callBits c3) = navBits (findStatePathNamed (currentState s2) e)"
    using moveToState_calls [of e s2] by blast
  let ?A = "navBits (findStatePath (currentState s) sh)"
  let ?C = "navBits (findStatePathNamed (exitState sh) e)"
  have bits: "concat (map callBits (c1 @ [call] @ c3)) = ?A @ ?B @ ?C"
    using c1(2) s2(3,4) c3(2) by simp
  have ne: "bytesToBits tdi (nat n) \<noteq> []"
    using n length_bytesToBits [of tdi "nat n"] by auto
  have a: "shiftedIn sh (currentState s) ?A = []" by (rule nav_to_shift_clean [OF sh])
  have a': "applyTMSSequence (currentState s) (map snd ?A) = sh"
    by (simp add: navBits_snd findStatePath_reaches)
  have b: "shiftedIn sh sh ?B = ?B" by (rule shiftedIn_payload [OF sh])
  have b': "applyTMSSequence sh (map snd ?B) = exitState sh" by (rule payload_exits [OF sh ne])
  have c: "shiftedIn sh (exitState sh) ?C = []" by (rule nav_to_end_clean [OF sh])
  have "shiftedIn sh (currentState s) (?A @ ?B @ ?C) = ?B"
    by (simp only: shiftedIn_append a a' b b' c append_Nil append_Nil2)
  with bits have obs: "shiftedIn sh (currentState s) (concat (map callBits (c1 @ [call] @ c3))) = ?B"
    by simp
  have log: "usb (moveToState e s2) = usb s @ (c1 @ [call] @ c3)"
    using c1(1) s2(2) c3(1) by simp
  from s2(1) s2(5,6) log obs show ?thesis
    by (auto simp: moveToState_ends)
qed

text \<open>
  Claim C8, as the code has it. For every SIR (resp. SDR) command with TDI data of
  \<open>n \<ge> 1\<close> bits, whatever HIR/TIR (resp. HDR/TDR) commands are installed, the bits
  that the engine hands to the adapter to be shifted while the TAP is in the shift
  state are exactly the payload's TDI bits, with TMS=0 on all bits but the last and
  TMS=1 on the last. Installed headers and trailers are stored and never injected.
\<close>

theorem shift_sends_payload_only:
  assumes "cmd_type cmd = ''SIR'' \<or> cmd_type cmd = ''SDR''"
    and "cmd_tdi cmd = Some tdi" and "cmd_length cmd = Some n" and "1 \<le> n"
  shows "\<exists>s' calls. executeCommand fast cmd s = Inr s' \<and>
           usb s' = usb s @ calls \<and>
           shiftedIn (shiftState cmd) (currentState s) (concat (map callBits calls)) =
             withTMS (bytesToBits tdi (nat n)) True"
  using assms(1)
proof
  assume t: "cmd_type cmd = ''SIR''"
  from shift_payload_only [of IRSHIFT "''IRSHIFT''" n fast tdi s "endIRState s"] assms(4)
    stateNamed_shift(1)
  obtain s2 calls where
    "shiftData fast tdi (Some n) False (moveToState ''IRSHIFT'' s) = Inr s2"
    "endIRState s2 = endIRState s"
    "usb (moveToState (endIRState s) s2) = usb s @ calls"
    "shiftedIn IRSHIFT (currentState s) (concat (map callBits calls)) =
       withTMS (bytesToBits tdi (nat n)) True"
    by auto
  with t assms(2,3) show ?thesis
    by (auto simp: executeCommand_def shiftIR_def shiftState_def Let_def)
next
  assume t: "cmd_type cmd = ''SDR''"
  from shift_payload_only [of DRSHIFT "''DRSHIFT''" n fast tdi s "endDRState s"] assms(4)
    stateNamed_shift(2)
  obtain s2 calls where
    "shiftData fast tdi (Some n) False (moveToState ''DRSHIFT'' s) = Inr s2"
    "endDRState s2 = endDRState s"
    "usb (moveToState (endDRState s) s2) = usb s @ calls"
    "shiftedIn DRSHIFT (currentState s) (concat (map callBits calls)) =
       withTMS (bytesToBits tdi (nat n)) True"
    by auto
  with t assms(2,3) show ?thesis
    by (auto simp: executeCommand_def shiftDR_def shiftState_def Let_def)
qed

text \<open>
  The 4-bit SIR with the 2-bit header installed: the four payload bits, the last with
  TMS=1, and nothing else.
\<close>

theorem shift_sends_payload_only_witness:
  "cmd_type sir4 = ''SIR'' \<and> cmd_tdi sir4 = Some [0x05] \<and> cmd_length sir4 = Some 4 \<and>
   (\<exists>s' calls.
      executeCommand 1000 sir4 (newJTAGStateMachine\<lparr>hir := Some hir2\<rparr>) = Inr s' \<and>
      usb s' = usb (newJTAGStateMachine\<lparr>hir := Some hir2\<rparr>) @ calls \<and>
      shiftedIn IRSHIFT RESET (concat (map callBits calls)) = [(1, 0), (0, 0), (1, 0), (0, 1)])"
proof -
  have h: "cmd_type sir4 = ''SIR'' \<or> cmd_type sir4 = ''SDR''" "cmd_tdi sir4 = Some [0x05]"
      "cmd_length sir4 = Some 4" "(1::int) \<le> 4"
    by (simp_all add: sir4_def)
  have v: "withTMS (bytesToBits [0x05] (nat 4)) True = [(1, 0), (0, 0), (1, 0), (0, 1)]"
    by code_simp
  have c: "shiftState sir4 = IRSHIFT"
      "currentState (newJTAGStateMachine\<lparr>hir := Some hir2\<rparr>) = RESET"
    by (simp_all add: shiftState_def sir4_def newJTAGStateMachine_def)
  from shift_sends_payload_only [OF h, of 1000 "newJTAGStateMachine\<lparr>hir := Some hir2\<rparr>"]
  show ?thesis unfolding v c using h(2,3) by (simp add: sir4_def)
qed

text \<open>
  Claim C8, as the specification states it, fails on the code. The header command is
  executed and installed; the SIR that follows shifts its four payload bits only, where
  the specification has the two header bits in front of them.
\<close>

theorem shift_header_counterexample:
  "executeCommand 1000 hir2 newJTAGStateMachine = Inr (newJTAGStateMachine\<lparr>hir := Some hir2\<rparr>) \<and>
   executeCommand 1000 sir4 (newJTAGStateMachine\<lparr>hir := Some hir2\<rparr>) =
     Inr (newJTAGStateMachine\<lparr>hir := Some hir2, currentState := IDLE,
            usb := [ShiftBits [0, 0, 0, 0, 0] [0, 1, 1, 0, 0] 5 False,
                    ShiftBits [1, 0, 1, 0] [0, 0, 0, 1] 4 False,
                    ShiftBits [0, 0] [1, 0] 2 False]\<rparr>) \<and>
   shiftedIn IRSHIFT RESET (concat (map callBits
       [ShiftBits [0, 0, 0, 0, 0] [0, 1, 1, 0, 0] 5 False,
        ShiftBits [1, 0, 1, 0] [0, 0, 0, 1] 4 False,
        ShiftBits [0, 0] [1, 0] 2 False])) = [(1, 0), (0, 0), (1, 0), (0, 1)] \<and>
   specShiftBits (Some hir2) sir4 None = [(1, 0), (1, 0), (1, 0), (0, 0), (1, 0), (0, 1)] \<and>
   shiftedIn IRSHIFT RESET (concat (map callBits
       [ShiftBits [0, 0, 0, 0, 0] [0, 1, 1, 0, 0] 5 False,
        ShiftBits [1, 0, 1, 0] [0, 0, 0, 1] 4 False,
        ShiftBits [0, 0] [1, 0] 2 False])) \<noteq> specShiftBits (Some hir2) sir4 None"
proof -
  have a: "executeCommand 1000 hir2 newJTAGStateMachine =
      Inr (newJTAGStateMachine\<lparr>hir := Some hir2\<rparr>)"
    by (simp add: executeCommand_def hir2_def)
  have b: "executeCommand 1000 sir4 (newJTAGStateMachine\<lparr>hir := Some hir2\<rparr>) =
     Inr (newJTAGStateMachine\<lparr>hir := Some hir2, currentState := IDLE,
            usb := [ShiftBits [0, 0, 0, 0, 0] [0, 1, 1, 0, 0] 5 False,
                    ShiftBits [1, 0, 1, 0] [0, 0, 0, 1] 4 False,
                    ShiftBits [0, 0] [1, 0] 2 False]\<rparr>)"
    by code_simp
  have c: "shiftedIn IRSHIFT RESET (concat (map callBits
       [ShiftBits [0, 0, 0, 0, 0] [0, 1, 1, 0, 0] 5 False,
        ShiftBits [1, 0, 1, 0] [0, 0, 0, 1] 4 False,
        ShiftBits [0, 0] [1, 0] 2 False])) = [(1, 0), (0, 0), (1, 0), (0, 1)]"
    by code_simp
  have d: "specShiftBits (Some hir2) sir4 None =
      [(1, 0), (1, 0), (1, 0), (0, 0), (1, 0), (0, 1)]"
    by code_simp
  from a b c d show ?thesis by simp
qed

section \<open>Properties of the hex parser\<close>

lemma hexDigit_cases:
  "hexDigitValue c \<noteq> None \<Longrightarrow> c \<in> set ''0123456789ABCDEFabcdef''"
  by (auto simp: hexDigitValue_def split: if_splits)

lemma hexDigit_upper:
  assumes "hexDigitValue c \<noteq> None"
  shows "hexDigitValue (toUpperChar c) = hexDigitValue c"
proof -
  have "\<forall>c \<in> set ''0123456789ABCDEFabcdef''. hexDigitValue (toUpperChar c) = hexDigitValue c"
    by code_simp
  with hexDigit_cases [OF assms] show ?thesis by blast
qed

lemma hexDigit_plain:
  assumes "hexDigitValue c \<noteq> None"
  shows "\<not> isSpace c" "c \<noteq> CHR ''(''" "c \<noteq> CHR '')''" "c \<noteq> CHR ''-''" "c \<noteq> CHR ''+''"
    "c \<noteq> CHR ''x''" "c \<noteq> CHR ''X''"
proof -
  have "\<forall>c \<in> set ''0123456789ABCDEFabcdef''. \<not> isSpace c \<and> c \<noteq> CHR ''('' \<and> c \<noteq> CHR '')'' \<and>
     c \<noteq> CHR ''-'' \<and> c \<noteq> CHR ''+'' \<and> c \<noteq> CHR ''x'' \<and> c \<noteq> CHR ''X''"
    by code_simp
  with hexDigit_cases [OF assms]
  show "\<not> isSpace c" "c \<noteq> CHR ''(''" "c \<noteq> CHR '')''" "c \<noteq> CHR ''-''" "c \<noteq> CHR ''+''"
    "c \<noteq> CHR ''x''" "c \<noteq> CHR ''X''" by blast+
qed

lemma hexDigit_bound:
  assumes "hexDigitValue c \<noteq> None"
  shows "the (hexDigitValue c) < 16"
proof -
  have "\<forall>c \<in> set ''0123456789ABCDEFabcdef''. the (hexDigitValue c) < 16"
    by code_simp
  with hexDigit_cases [OF assms] show ?thesis by blast
qed


lemma parseInt16_pair:
  assumes "hexDigitValue c1 \<noteq> None" "hexDigitValue c2 \<noteq> None"
  shows "parseInt16 [c1, c2] =
           Some (16 * int (the (hexDigitValue c1)) + int (the (hexDigitValue c2)))"
proof -
  have a: "dropWhile isSpace [c1, c2] = [c1, c2]"
    using hexDigit_plain(1) [OF assms(1)] by simp
  have b: "take 2 [c1, c2] \<noteq> ''0x''" "take 2 [c1, c2] \<noteq> ''0X''"
    using hexDigit_plain(6,7) [OF assms(2)] by auto
  have c: "takeWhile (\<lambda>c. hexDigitValue c \<noteq> None) [c1, c2] = [c1, c2]"
    using assms by simp
  show ?thesis
    unfolding parseInt16_def Let_def a
    using b c hexDigit_plain(4,5) [OF assms(1)] by simp
qed

lemma fill_length:
  "length (foldl (\<lambda>bytes i. bytes[i := f i]) bs xs) = length bs"
  by (induction xs arbitrary: bs) simp_all

lemma fill_nth:
  assumes "j < length bs"
  shows "foldl (\<lambda>bytes i. bytes[i := f i]) bs [0..<k] ! j = (if j < k then f j else bs ! j)"
  using assms
proof (induction k)
  case 0
  then show ?case by simp
next
  case (Suc k)
  then show ?case
    by (auto simp: fill_length nth_list_update less_Suc_eq)
qed


lemma stripHex_hexToken:
  assumes "hexToken h"
  shows "stripHex h = map toUpperChar (hexDigits h)"
proof -
  have "filter (\<lambda>c. \<not> isSpace c) (filter (\<lambda>c. c \<noteq> CHR ''('' \<and> c \<noteq> CHR '')'') h) =
        filter (\<lambda>c. (c \<noteq> CHR ''('' \<and> c \<noteq> CHR '')'') \<and> \<not> isSpace c) h"
    by (simp add: conj_commute)
  also have "\<dots> = filter (\<lambda>c. hexDigitValue c \<noteq> None) h"
  proof (rule filter_cong [OF refl])
    fix c assume "c \<in> set h"
    with assms have "hexDigitValue c \<noteq> None \<or> c = CHR ''('' \<or> c = CHR '')'' \<or> isSpace c"
      by (simp add: hexToken_def)
    then show "((c \<noteq> CHR ''('' \<and> c \<noteq> CHR '')'') \<and> \<not> isSpace c) = (hexDigitValue c \<noteq> None)"
      using hexDigit_plain(1,2,3) [of c] by blast
  qed
  finally show ?thesis by (simp add: stripHex_def toUpperCase_def hexDigits_def)
qed

lemma take2_drop:
  "k + 2 \<le> length xs \<Longrightarrow> take 2 (drop k xs) = [xs ! k, xs ! (k + 1)]"
  by (rule nth_equalityI) (auto simp: less_Suc_eq numeral_2_eq_2)

lemma padded_from_right:
  assumes "hexToken h" and "k < length (padHex (stripHex h))"
  shows "hexDigitValue (rev (padHex (stripHex h)) ! k) = Some (digitFromRight h k)"
proof -
  let ?ds = "hexDigits h"
  let ?us = "map toUpperChar ?ds"
  have us: "stripHex h = ?us" by (rule stripHex_hexToken [OF assms(1)])
  have dig: "hexDigitValue c \<noteq> None" if "c \<in> set ?ds" for c
    using that by (simp add: hexDigits_def)
  show ?thesis
  proof (cases "k < length ?ds")
    case True
    then have "rev (padHex ?us) ! k = rev ?us ! k"
      by (simp add: padHex_def nth_append)
    also have "\<dots> = toUpperChar (rev ?ds ! k)"
      using True by (simp add: rev_map)
    finally have eq: "rev (padHex ?us) ! k = toUpperChar (rev ?ds ! k)" .
    have "rev ?ds ! k \<in> set ?ds" using True by (metis length_rev nth_mem set_rev)
    then have d: "hexDigitValue (rev ?ds ! k) \<noteq> None" by (rule dig)
    then have "hexDigitValue (toUpperChar (rev ?ds ! k)) = Some (the (hexDigitValue (rev ?ds ! k)))"
      by (simp add: hexDigit_upper)
    with True show ?thesis by (simp add: us eq digitFromRight_def)
  next
    case False
    with assms(2) have odd: "length ?us mod 2 \<noteq> 0" and k: "k = length ?ds"
      by (auto simp: us padHex_def split: if_splits)
    then have "rev (padHex ?us) ! k = CHR ''0''"
      by (simp add: padHex_def nth_append)
    moreover have "hexDigitValue CHR ''0'' = Some 0" by (simp add: hexDigitValue_def)
    ultimately show ?thesis using False by (simp add: us digitFromRight_def)
  qed
qed

lemma padHex_even: "length (padHex s) mod 2 = 0"
  by (simp add: padHex_def) presburger

lemma padHex_supplied:
  assumes "hexToken h"
  shows "length (padHex (stripHex h)) div 2 = suppliedBytes h"
  by (simp add: stripHex_hexToken [OF assms] padHex_def suppliedBytes_def) presburger

lemma pairByte_value:
  assumes "hexToken h" and "i < suppliedBytes h"
  shows "pairByte (padHex (stripHex h)) i =
           word_of_int (16 * int (digitFromRight h (2 * i + 1)) + int (digitFromRight h (2 * i)))"
proof -
  let ?hs = "padHex (stripHex h)"
  let ?L = "length ?hs"
  have L: "?L = 2 * suppliedBytes h"
    using padHex_even [of "stripHex h"] padHex_supplied [OF assms(1)] by presburger
  with assms(2) have room: "(?L - 2 - i * 2) + 2 \<le> ?L" and lt: "2 * i + 1 < ?L" "2 * i < ?L"
    by simp_all
  have pair: "take 2 (drop (?L - 2 - i * 2) ?hs) =
      [?hs ! (?L - 2 - i * 2), ?hs ! (?L - 2 - i * 2 + 1)]"
    by (rule take2_drop [OF room])
  have i1: "?hs ! (?L - 2 - i * 2) = rev ?hs ! (2 * i + 1)"
  proof -
    have "?L - 2 - i * 2 = ?L - Suc (2 * i + 1)" by simp
    then show ?thesis using lt(1) by (simp only: rev_nth)
  qed
  have i0: "?hs ! (?L - 2 - i * 2 + 1) = rev ?hs ! (2 * i)"
  proof -
    have "?L - 2 - i * 2 + 1 = ?L - Suc (2 * i)" using lt(1) by simp
    then show ?thesis using lt(2) by (simp add: rev_nth)
  qed
  have v1: "hexDigitValue (rev ?hs ! (2 * i + 1)) = Some (digitFromRight h (2 * i + 1))"
    by (rule padded_from_right [OF assms(1) lt(1)])
  have v0: "hexDigitValue (rev ?hs ! (2 * i)) = Some (digitFromRight h (2 * i))"
    by (rule padded_from_right [OF assms(1) lt(2)])
  have "parseInt16 [rev ?hs ! (2 * i + 1), rev ?hs ! (2 * i)] =
      Some (16 * int (digitFromRight h (2 * i + 1)) + int (digitFromRight h (2 * i)))"
    using parseInt16_pair [of "rev ?hs ! (2 * i + 1)" "rev ?hs ! (2 * i)"] v1 v0 by simp
  then show ?thesis
    unfolding pairByte_def Let_def pair i1 i0 by simp
qed


lemma hexDigits_stripHex:
  assumes "hexToken h"
  shows "length (stripHex h) = length (hexDigits h)"
  by (simp add: stripHex_hexToken [OF assms])

lemma parseHexData_hex:
  assumes "hexToken h" and "hexDigits h \<noteq> []"
  shows "\<exists>bs. parseHexData h n = Inr (Some bs) \<and>
           int (length bs) = max (int (suppliedBytes h)) (ceilDiv8 n) \<and>
           (\<forall>j < length bs. bs ! j =
              (if j < suppliedBytes h
               then word_of_int (16 * int (digitFromRight h (2 * j + 1)) +
                                 int (digitFromRight h (2 * j)))
               else 0))"
proof -
  let ?hs = "padHex (stripHex h)"
  let ?p = "suppliedBytes h"
  let ?len = "nat (max (int ?p) (ceilDiv8 n))"
  let ?bs = "foldl (\<lambda>bytes i. bytes[i := pairByte ?hs i]) (replicate ?len 0) [0..<?p]"
  from assms(2) have hne: "h \<noteq> []" by (auto simp: hexDigits_def)
  from assms have sne: "length (stripHex h) \<noteq> 0"
    by (simp add: hexDigits_stripHex)
  have run: "parseHexData h n = Inr (Some ?bs)"
    using hne sne by (simp add: parseHexData_def Let_def padHex_supplied [OF assms(1)])
  have len: "length ?bs = ?len" by (simp add: fill_length)
  have nth: "?bs ! j = (if j < ?p
               then word_of_int (16 * int (digitFromRight h (2 * j + 1)) +
                                 int (digitFromRight h (2 * j)))
               else 0)" if "j < length ?bs" for j
  proof -
    from that len have j: "j < length (replicate ?len (0::byte))" by simp
    have "?bs ! j = (if j < ?p then pairByte ?hs j else replicate ?len 0 ! j)"
      by (rule fill_nth [OF j])
    also have "\<dots> = (if j < ?p
               then word_of_int (16 * int (digitFromRight h (2 * j + 1)) +
                                 int (digitFromRight h (2 * j)))
               else 0)"
      using j by (simp add: pairByte_value [OF assms(1)])
    finally show ?thesis .
  qed
  have "0 \<le> max (int ?p) (ceilDiv8 n)" by simp
  then have "int (length ?bs) = max (int ?p) (ceilDiv8 n)" by (simp only: len int_nat_eq if_True)
  with run nth show ?thesis by blast
qed

lemma parseHexData_no_digits:
  assumes "hexToken h" and "h \<noteq> []" and "hexDigits h = []" and "0 \<le> n"
  shows "parseHexData h n = Inr (Some (replicate (nat (ceilDiv8 n)) 0))"
proof -
  from assms(1,3) have "length (stripHex h) = 0" by (simp add: hexDigits_stripHex)
  moreover from assms(4) have "\<not> ceilDiv8 n < 0" by (simp add: ceilDiv8_def)
  ultimately show ?thesis using assms(2) by (simp add: parseHexData_def Let_def)
qed

text \<open>
  Claim C2. For every hex token \<open>h\<close> (hex digits, parentheses, white space) with at
  least one hex digit, and every nominal bit length \<open>n\<close>, \<open>parseHexData h n\<close> returns
  bytes of which byte \<open>i\<close> is made of the two hex digits that stand \<open>2 i + 1\<close> and
  \<open>2 i\<close> places from the right end of the stripped token: the rightmost pair is byte
  0, the next pair to the left is byte 1, and so on (a single leftmost digit is the low
  half of the last byte). In particular \<open>567F00000000\<close> with length 48 gives the bytes
  \<open>00 00 00 00 7F 56\<close>.
\<close>

theorem parseHexData_lsb_first:
  "(hexToken h \<and> hexDigits h \<noteq> [] \<longrightarrow>
      (\<exists>bs. parseHexData h n = Inr (Some bs) \<and> suppliedBytes h \<le> length bs \<and>
         (\<forall>i < suppliedBytes h.
            bs ! i = word_of_int (16 * int (digitFromRight h (2 * i + 1)) +
                                  int (digitFromRight h (2 * i)))))) \<and>
   parseHexData ''567F00000000'' 48 = Inr (Some [0x00, 0x00, 0x00, 0x00, 0x7F, 0x56])"
proof
  show "hexToken h \<and> hexDigits h \<noteq> [] \<longrightarrow>
      (\<exists>bs. parseHexData h n = Inr (Some bs) \<and> suppliedBytes h \<le> length bs \<and>
         (\<forall>i < suppliedBytes h.
            bs ! i = word_of_int (16 * int (digitFromRight h (2 * i + 1)) +
                                  int (digitFromRight h (2 * i)))))"
  proof
    assume a: "hexToken h \<and> hexDigits h \<noteq> []"
    then obtain bs where bs: "parseHexData h n = Inr (Some bs)"
        "int (length bs) = max (int (suppliedBytes h)) (ceilDiv8 n)"
        "\<forall>j < length bs. bs ! j =
              (if j < suppliedBytes h
               then word_of_int (16 * int (digitFromRight h (2 * j + 1)) +
                                 int (digitFromRight h (2 * j)))
               else 0)"
      using parseHexData_hex [of h n] by blast
    from bs(2) have le: "suppliedBytes h \<le> length bs" by linarith
    with bs(1,3) show "\<exists>bs. parseHexData h n = Inr (Some bs) \<and> suppliedBytes h \<le> length bs \<and>
         (\<forall>i < suppliedBytes h.
            bs ! i = word_of_int (16 * int (digitFromRight h (2 * i + 1)) +
                                  int (digitFromRight h (2 * i))))"
      by auto
  qed
next
  show "parseHexData ''567F00000000'' 48 = Inr (Some [0x00, 0x00, 0x00, 0x00, 0x7F, 0x56])"
    by code_simp
qed

text \<open>The token \<open>(1a2B)\<close>: byte 0 is \<open>2B\<close>, byte 1 is \<open>1A\<close>.\<close>

theorem parseHexData_lsb_first_witness:
  "hexToken ''(1a2B)'' \<and> hexDigits ''(1a2B)'' \<noteq> [] \<and> suppliedBytes ''(1a2B)'' = 2 \<and>
   (\<exists>bs. parseHexData ''(1a2B)'' 16 = Inr (Some bs) \<and> bs ! 0 = 0x2B \<and> bs ! 1 = 0x1A)"
proof -
  have a: "hexToken ''(1a2B)''" "hexDigits ''(1a2B)'' \<noteq> []" "suppliedBytes ''(1a2B)'' = 2"
    by code_simp+
  have v: "digitFromRight ''(1a2B)'' 0 = 11" "digitFromRight ''(1a2B)'' (Suc 0) = 2"
      "digitFromRight ''(1a2B)'' 2 = 10" "digitFromRight ''(1a2B)'' 3 = 1"
    by code_simp+
  from parseHexData_lsb_first [of "''(1a2B)''" 16] a
  obtain bs where bs: "parseHexData ''(1a2B)'' 16 = Inr (Some bs)"
      "\<forall>i < 2. bs ! i = word_of_int (16 * int (digitFromRight ''(1a2B)'' (2 * i + 1)) +
                                  int (digitFromRight ''(1a2B)'' (2 * i)))"
    by auto
  from bs(2) have "bs ! 0 = word_of_int (16 * int (digitFromRight ''(1a2B)'' (2 * 0 + 1)) +
                                  int (digitFromRight ''(1a2B)'' (2 * 0)))"
    and "bs ! 1 = word_of_int (16 * int (digitFromRight ''(1a2B)'' (2 * 1 + 1)) +
                                  int (digitFromRight ''(1a2B)'' (2 * 1)))"
    by simp_all
  then have "bs ! 0 = 0x2B" "bs ! 1 = 0x1A"
    by (simp_all add: v)
  with bs(1) a show ?thesis by blast
qed

text \<open>
  Claim C9, as the code has it. \<open>parseShift\<close> builds each of TDI, TDO, MASK and SMASK
  by \<open>parseHexData\<close> on the raw token with the command's bit length \<open>n\<close>. For every
  hex token and \<open>n \<ge> 0\<close> the array has \<open>max(p, ceil(n / 8))\<close> bytes, where \<open>p\<close> is
  the number of bytes the literal supplies, and every byte from index \<open>p\<close> on is zero.
  So a literal that supplies at most \<open>ceil(n / 8)\<close> bytes gives exactly
  \<open>ceil(n / 8)\<close> bytes with zero high bytes; a longer literal keeps all its bytes.
\<close>

theorem parseHexData_length:
  assumes "hexToken h" and "h \<noteq> []" and "0 \<le> n"
  shows "\<exists>bs. parseHexData h n = Inr (Some bs) \<and>
           int (length bs) = max (int (suppliedBytes h)) (ceilDiv8 n) \<and>
           (\<forall>i. suppliedBytes h \<le> i \<and> i < length bs \<longrightarrow> bs ! i = 0)"
proof (cases "hexDigits h = []")
  case True
  from assms(3) have "0 \<le> ceilDiv8 n" by (simp add: ceilDiv8_def)
  with True parseHexData_no_digits [OF assms(1,2) True assms(3)]
  show ?thesis by (simp add: suppliedBytes_def)
next
  case False
  from parseHexData_hex [OF assms(1) False, of n] show ?thesis by auto
qed

text \<open>Three hex digits for 40 bits: five bytes, the upper three zero.\<close>

theorem parseHexData_length_witness:
  "hexToken ''(abc)'' \<and> ''(abc)'' \<noteq> [] \<and> suppliedBytes ''(abc)'' = 2 \<and> ceilDiv8 40 = 5 \<and>
   (\<exists>bs. parseHexData ''(abc)'' 40 = Inr (Some bs) \<and> length bs = 5 \<and>
         bs ! 2 = 0 \<and> bs ! 3 = 0 \<and> bs ! 4 = 0)"
proof -
  have a: "hexToken ''(abc)''" "''(abc)'' \<noteq> []" "(0::int) \<le> 40"
    by code_simp+
  have b: "suppliedBytes ''(abc)'' = 2" "ceilDiv8 40 = 5"
    by code_simp+
  from parseHexData_length [OF a] obtain bs where
    bs: "parseHexData ''(abc)'' 40 = Inr (Some bs)"
      "int (length bs) = max (int (suppliedBytes ''(abc)'')) (ceilDiv8 40)"
      "\<forall>i. suppliedBytes ''(abc)'' \<le> i \<and> i < length bs \<longrightarrow> bs ! i = 0"
    by blast
  from bs(2) have len: "length bs = 5" by (simp add: b)
  with bs(3) have "bs ! 2 = 0" "bs ! 3 = 0" "bs ! 4 = 0" by (simp_all add: b)
  with bs(1) len a b show ?thesis by blast
qed

text \<open>
  Claim C9, as the specification states it, fails on the code: six hex digits for 8 bits
  give three bytes, not one, and the two extra bytes are not zero.
\<close>

theorem parseHexData_length_counterexample:
  "parseHexData ''(ABCDEF)'' 8 = Inr (Some [0xEF, 0xCD, 0xAB]) \<and>
   ceilDiv8 8 = 1 \<and> int (length [0xEF, 0xCD, 0xAB :: byte]) \<noteq> ceilDiv8 8"
  by code_simp

section \<open>Properties of the legacy adapter\<close>

subsection \<open>Clock edges\<close>

lemma and_one_cases: "(x :: byte) AND 1 = 0 \<or> x AND 1 = 1"
  by (cases "odd x") (simp_all add: and_one_eq mod_2_eq_odd)

lemma bitBangPair_edges:
  "tckEdges tck (bitBangPair tdiBits tmsBits capture i @ rest) = 1 + tckEdges True rest"
  by (simp add: bitBangPair_def Let_def)

lemma tailPair_edges:
  assumes "tdi = 0 \<or> tdi = (1 :: byte)"
  shows "tckEdges tck ([0x2C OR push_bit 4 tdi OR 0, 0x2C OR push_bit 4 tdi OR 1] @ rest) =
           1 + tckEdges True rest"
    and "tckEdges tck ([0x2C OR push_bit 4 tdi OR 0x02, 0x2C OR push_bit 4 tdi OR 0x03] @ rest) =
           1 + tckEdges True rest"
  using assms by auto

lemma cmdByte_facts:
  assumes "1 \<le> n" "n \<le> 63"
  shows "bit ((0x80 :: byte) OR (of_nat n AND 0x3f)) 7"
    and "unat (((0x80 :: byte) OR (of_nat n AND 0x3f)) AND 0x3F) = n"
proof -
  have "\<forall>n \<in> set [1..<64]. bit ((0x80 :: byte) OR (of_nat n AND 0x3f)) 7 \<and>
     unat (((0x80 :: byte) OR (of_nat n AND 0x3f)) AND 0x3F) = n"
    by code_simp
  with assms show "bit ((0x80 :: byte) OR (of_nat n AND 0x3f)) 7"
    and "unat (((0x80 :: byte) OR (of_nat n AND 0x3f)) AND 0x3F) = n"
    by auto
qed


lemma clocks_Nil: "clocks 0 []"
  by (auto simp: clocks_def)

lemma clocks_append:
  assumes "clocks j u" and "clocks k v"
  shows "clocks (j + k) (u @ v)"
  unfolding clocks_def
proof (intro allI)
  fix tck rest
  from assms(1) obtain t1 where "tckEdges tck (u @ (v @ rest)) = j + tckEdges t1 (v @ rest)"
    unfolding clocks_def by blast
  moreover from assms(2) obtain t2 where "tckEdges t1 (v @ rest) = k + tckEdges t2 rest"
    unfolding clocks_def by blast
  ultimately have "tckEdges tck ((u @ v) @ rest) = (j + k) + tckEdges t2 rest" by simp
  then show "\<exists>tck'. tckEdges tck ((u @ v) @ rest) = (j + k) + tckEdges tck' rest" ..
qed

lemma clocks_total: "clocks k w \<Longrightarrow> tckEdges tck w = k"
  unfolding clocks_def by (metis append_Nil2 add.right_neutral tckEdges.simps(1))

lemma clocks_bitBangPair: "clocks 1 (bitBangPair tdiBits tmsBits capture i)"
  unfolding clocks_def using bitBangPair_edges by blast

lemma clocks_pairs:
  assumes "\<And>i. clocks 1 (f i)"
  shows "clocks n (concat (map f [0..<n]))"
proof (induction n)
  case 0
  show ?case by (simp add: clocks_Nil)
next
  case (Suc n)
  from clocks_append [OF Suc assms [of n]] show ?case by simp
qed

lemma clocks_shiftBitBang: "clocks n (shiftBitBang tdiBits tmsBits start n capture)"
  unfolding shiftBitBang_def by (rule clocks_pairs) (rule clocks_bitBangPair)

lemma clocks_packet:
  assumes "1 \<le> n" "n \<le> 63" "length data = n"
  shows "clocks (8 * n) (((0x80 :: byte) OR (of_nat n AND 0x3f)) # data)"
  unfolding clocks_def
  using cmdByte_facts [OF assms(1,2)] assms(3) by auto

lemma clocks_bytewisePackets:
  "clocks (8 * (numBytes - off)) (concat (bytewisePackets tdiBits startBit bitCount numBytes off))"
proof (induction tdiBits startBit bitCount numBytes off rule: bytewisePackets.induct)
  case (1 tdiBits startBit bitCount numBytes byteOffset)
  show ?case
  proof (cases "byteOffset < numBytes")
    case False
    then show ?thesis by (subst bytewisePackets.simps) (simp add: clocks_Nil)
  next
    case True
    let ?n = "min 63 (numBytes - byteOffset)"
    let ?data = "map (\<lambda>i. packByte tdiBits startBit bitCount (byteOffset + i)) [0..<?n]"
    have p: "clocks (8 * ?n) (((0x80 :: byte) OR (of_nat ?n AND 0x3f)) # ?data)"
      using True by (intro clocks_packet) simp_all
    have r: "clocks (8 * (numBytes - (byteOffset + 63)))
        (concat (bytewisePackets tdiBits startBit bitCount numBytes (byteOffset + 63)))"
      by (rule "1.IH" [OF True refl refl refl])
    have sum: "8 * ?n + 8 * (numBytes - (byteOffset + 63)) = 8 * (numBytes - byteOffset)"
      using True unfolding min_def by (simp; linarith)
    from clocks_append [OF p r] show ?thesis
      using True unfolding sum by (subst bytewisePackets.simps) (simp add: Let_def)
  qed
qed

lemma clocks_shiftBytewise:
  "clocks (8 * ((bitCount + 7) div 8)) (concat (shiftBytewise tdiBits startBit bitCount))"
  using clocks_bytewisePackets [of "(bitCount + 7) div 8" 0] by (simp add: shiftBytewise_def)

lemma fillBatch_clocks:
  "\<exists>new. snd (fillBatch tdiBytes startByte numBytes off batch) = batch @ new \<and>
         clocks (8 * (fst (fillBatch tdiBytes startByte numBytes off batch) - off)) new"
proof (induction tdiBytes startByte numBytes off batch rule: fillBatch.induct)
  case (1 tdiBytes startByte numBytes byteOffset batch)
  show ?case
  proof (cases "byteOffset < numBytes \<and> length batch < 4096 - 64")
    case False
    then have "fillBatch tdiBytes startByte numBytes byteOffset batch = (byteOffset, batch)"
      by (subst fillBatch.simps) auto
    then show ?thesis by (simp add: clocks_Nil)
  next
    case True
    let ?n = "min 63 (numBytes - byteOffset)"
    let ?cmd = "(0x80 :: byte) OR (of_nat ?n AND 0x3f)"
    let ?data = "map (\<lambda>i. byteAt tdiBytes (startByte + byteOffset + i)) [0..<?n]"
    let ?r = "fillBatch tdiBytes startByte numBytes (byteOffset + ?n) (batch @ [?cmd] @ ?data)"
    have step: "fillBatch tdiBytes startByte numBytes byteOffset batch = ?r"
      using True by (subst fillBatch.simps) (simp add: Let_def)
    from "1.IH" [OF True refl refl] obtain new where
      new: "snd ?r = (batch @ [?cmd] @ ?data) @ new"
        "clocks (8 * (fst ?r - (byteOffset + ?n))) new"
      by blast
    from True have lt: "byteOffset < numBytes" by simp
    have p: "clocks (8 * ?n) (?cmd # ?data)"
      using lt by (intro clocks_packet) simp_all
    have ge: "byteOffset + ?n \<le> fst ?r" by (rule fillBatch_progress)
    have arith: "8 * n + 8 * (f - (b + n)) = 8 * (f - b)" if "b + n \<le> f" for n f b :: nat
      using that by linarith
    from ge have sum: "8 * ?n + 8 * (fst ?r - (byteOffset + ?n)) = 8 * (fst ?r - byteOffset)"
      by (rule arith)
    from clocks_append [OF p new(2)] have "clocks (8 * (fst ?r - byteOffset)) ((?cmd # ?data) @ new)"
      unfolding sum .
    moreover from new(1) have "snd ?r = batch @ ((?cmd # ?data) @ new)" by simp
    ultimately show ?thesis unfolding step by blast
  qed
qed

lemma fillBatch_bound:
  "off \<le> numBytes \<Longrightarrow> fst (fillBatch tdiBytes startByte numBytes off batch) \<le> numBytes"
proof (induction tdiBytes startByte numBytes off batch rule: fillBatch.induct)
  case (1 tdiBytes startByte numBytes byteOffset batch)
  show ?case
  proof (cases "byteOffset < numBytes \<and> length batch < 4096 - 64")
    case False
    with "1.prems" show ?thesis by (subst fillBatch.simps) auto
  next
    case True
    then have "byteOffset < numBytes" by simp
    then have "byteOffset + min 63 (numBytes - byteOffset) \<le> numBytes" by simp
    from "1.IH" [OF True refl refl this] show ?thesis
      using True by (subst fillBatch.simps) (simp add: Let_def)
  qed
qed

lemma clocks_rawBatches:
  "off \<le> numBytes \<Longrightarrow>
   clocks (8 * (numBytes - off)) (concat (rawBatches tdiBytes startByte numBytes off))"
proof (induction tdiBytes startByte numBytes off rule: rawBatches.induct)
  case (1 tdiBytes startByte numBytes byteOffset)
  show ?case
  proof (cases "byteOffset < numBytes")
    case False
    then show ?thesis by (subst rawBatches.simps) (simp add: clocks_Nil)
  next
    case True
    obtain nxt batch where fb: "fillBatch tdiBytes startByte numBytes byteOffset [] = (nxt, batch)"
      by (cases "fillBatch tdiBytes startByte numBytes byteOffset []")
    from fillBatch_clocks [of tdiBytes startByte numBytes byteOffset "[]"] fb
    have b: "clocks (8 * (nxt - byteOffset)) batch" by simp
    from fillBatch_bound [of byteOffset numBytes tdiBytes startByte "[]"] True fb
    have le: "nxt \<le> numBytes" by simp
    from fillBatch_progress [of byteOffset tdiBytes startByte numBytes "[]"] fb
    have ge: "byteOffset \<le> nxt" by simp
    have r: "clocks (8 * (numBytes - nxt)) (concat (rawBatches tdiBytes startByte numBytes nxt))"
      by (rule "1.IH" [OF True fb [symmetric] le])
    have sum: "8 * (nxt - byteOffset) + 8 * (numBytes - nxt) = 8 * (numBytes - byteOffset)"
      using le ge by simp
    from clocks_append [OF b r] show ?thesis
      using True fb unfolding sum by (subst rawBatches.simps) simp
  qed
qed

lemma clocks_anchor: "clocks 0 [0x2C]"
  by (auto simp: clocks_def)

lemma clocks_shiftBytesRaw:
  "clocks (8 * numBytes) (concat (shiftBytesRaw tdiBytes startByte numBytes))"
  using clocks_append [OF clocks_anchor clocks_rawBatches [of 0 numBytes tdiBytes startByte]]
  by (simp add: shiftBytesRaw_def)


lemma clocks_shiftBitsLoop:
  "clocks (nat (bitLength - int bitIndex))
     (concat (shiftBitsLoop tdiBits tmsBits bitLength capture bitIndex))"
proof (induction tdiBits tmsBits bitLength capture bitIndex rule: shiftBitsLoop.induct)
  case (1 tdiBits tmsBits bitLength capture bitIndex)
  show ?case
  proof (cases "int bitIndex < bitLength")
    case False
    then show ?thesis by (subst shiftBitsLoop.simps) (simp add: clocks_Nil)
  next
    case lt: True
    let ?fast = "(\<not> capture \<and> canUseByteshiftMode tmsBits bitIndex bitLength) \<and>
        bitLength - int bitIndex \<ge> 16"
    show ?thesis
    proof (cases ?fast)
      case True
      let ?bits = "nat (bitLength - int bitIndex) div 8 * 8"
      have a: "clocks (8 * ((?bits + 7) div 8)) (concat (shiftBytewise tdiBits bitIndex ?bits))"
        by (rule clocks_shiftBytewise)
      have whole: "8 * ((m * 8 + 7) div 8) = m * 8" for m :: nat by presburger
      have a': "8 * ((?bits + 7) div 8) = ?bits" by (rule whole)
      have r: "clocks (nat (bitLength - int (bitIndex + ?bits)))
          (concat (shiftBitsLoop tdiBits tmsBits bitLength capture (bitIndex + ?bits)))"
        by (rule "1.IH"(1) [OF lt True refl refl refl])
      have part: "k div 8 * 8 \<le> k" for k :: nat by presburger
      have le: "?bits \<le> nat (bitLength - int bitIndex)" by (rule part)
      then have sum: "?bits + nat (bitLength - int (bitIndex + ?bits)) = nat (bitLength - int bitIndex)"
        by linarith
      from clocks_append [OF a r] show ?thesis
        using lt True unfolding a' sum by (subst shiftBitsLoop.simps) (simp add: Let_def)
    next
      case False
      let ?batch = "min 64 (nat (bitLength - int bitIndex))"
      have a: "clocks ?batch (shiftBitBang tdiBits tmsBits bitIndex ?batch capture)"
        by (rule clocks_shiftBitBang)
      have r: "clocks (nat (bitLength - int (bitIndex + ?batch)))
          (concat (shiftBitsLoop tdiBits tmsBits bitLength capture (bitIndex + ?batch)))"
        by (rule "1.IH"(2) [OF lt False refl])
      have sum: "?batch + nat (bitLength - int (bitIndex + ?batch)) = nat (bitLength - int bitIndex)"
        by linarith
      from clocks_append [OF a r] show ?thesis
        using lt False unfolding sum by (subst shiftBitsLoop.simps) (auto simp add: Let_def)
    qed
  qed
qed

lemma shiftBits_clocks:
  assumes "device b" and "0 \<le> bitLength"
  shows "\<exists>b' w. shiftBits tdiBits tmsBits bitLength capture b = Inr b' \<and> device b' \<and>
           wire b' = wire b @ w \<and> clocks (nat bitLength) (concat w)"
  using assms clocks_shiftBitsLoop [of bitLength 0 tdiBits tmsBits capture]
  by (simp add: shiftBits_def)

lemma tailBit_cases: "tailBit tdiBytes start i = 0 \<or> tailBit tdiBytes start i = 1"
  using and_one_cases by (auto simp: tailBit_def)

lemma clocks_tail_zero:
  "clocks 1 (let tdi = tailBit tdiBytes start i
             in [0x2C OR push_bit 4 tdi OR 0, 0x2C OR push_bit 4 tdi OR 1])"
  unfolding clocks_def Let_def
  using tailPair_edges(1) [OF tailBit_cases [of tdiBytes start i]] by blast

lemma clocks_tail_exit:
  "clocks 1 [0x2C OR push_bit 4 (tailBit tdiBytes start i) OR 0x02,
             0x2C OR push_bit 4 (tailBit tdiBytes start i) OR 0x03]"
  unfolding clocks_def
  using tailPair_edges(2) [OF tailBit_cases [of tdiBytes start i]] by blast

lemma shiftBytes_clocks:
  assumes "device b" and "1 \<le> bitLength"
  shows "\<exists>b' w. shiftBytes tdiBytes bitLength b = Inr b' \<and> device b' \<and>
           wire b' = wire b @ w \<and> clocks (nat bitLength) (concat w)"
proof -
  let ?fast = "if ceilDiv8 bitLength > 1 then nat (ceilDiv8 bitLength - 1) else 0"
  let ?rem = "bitLength - int ?fast * 8"
  let ?w1 = "if ?fast > 0 then shiftBytesRaw tdiBytes 0 ?fast else []"
  let ?w2 = "if ?rem > 1 then
      [concat (map (\<lambda>i. let tdi = tailBit tdiBytes ?fast (int i)
                         in [0x2C OR push_bit 4 tdi OR 0, 0x2C OR push_bit 4 tdi OR 1])
                  [0..<nat (?rem - 1)])]
      else []"
  let ?w3 = "[[0x2C OR push_bit 4 (tailBit tdiBytes ?fast (?rem - 1)) OR 0x02,
               0x2C OR push_bit 4 (tailBit tdiBytes ?fast (?rem - 1)) OR 0x03]]"
  have run: "shiftBytes tdiBytes bitLength b = Inr (b\<lparr>wire := wire b @ ?w1 @ ?w2 @ ?w3\<rparr>)"
    using assms(1) by (simp add: shiftBytes_def Let_def)
  have c1: "clocks (8 * ?fast) (concat ?w1)"
    using clocks_shiftBytesRaw [of ?fast tdiBytes 0] by (simp add: clocks_Nil)
  have c2: "clocks (nat (?rem - 1)) (concat ?w2)"
  proof (cases "?rem > 1")
    case True
    have "clocks (nat (?rem - 1))
        (concat (map (\<lambda>i. let tdi = tailBit tdiBytes ?fast (int i)
                           in [0x2C OR push_bit 4 tdi OR 0, 0x2C OR push_bit 4 tdi OR 1])
                  [0..<nat (?rem - 1)]))"
      by (rule clocks_pairs) (rule clocks_tail_zero)
    with True show ?thesis by simp
  next
    case False
    then show ?thesis by (simp add: clocks_Nil)
  qed
  have c3: "clocks 1 (concat ?w3)"
    using clocks_tail_exit [of tdiBytes ?fast "?rem - 1"] by simp
  have rem: "1 \<le> ?rem" using assms(2) by (simp add: ceilDiv8_def) linarith
  have fast: "int ?fast * 8 \<le> bitLength" using rem by linarith
  have sum: "8 * ?fast + nat (?rem - 1) + 1 = nat bitLength"
    using rem fast by linarith
  have "clocks (8 * ?fast + nat (?rem - 1) + 1) (concat ?w1 @ concat ?w2 @ concat ?w3)"
    using clocks_append [OF clocks_append [OF c1 c2] c3] by simp
  then have "clocks (nat bitLength) (concat (?w1 @ ?w2 @ ?w3))"
    unfolding sum by simp
  with run assms(1) show ?thesis by auto
qed

lemma toggleClockCycles_clocks:
  assumes "device b" and "1 \<le> cycles"
  shows "\<exists>w. device (toggleClockCycles cycles b) \<and>
           wire (toggleClockCycles cycles b) = wire b @ w \<and>
           clocks (8 * nat (ceilDiv8 cycles)) (concat w)"
proof -
  let ?n = "nat (ceilDiv8 cycles)"
  let ?z = "case zeroBuffer b of
              None \<Rightarrow> max ?n 65536
            | Some l \<Rightarrow> if l < ?n then max ?n 65536 else l"
  have "clocks (0 + 8 * ?n) ([0x2C] @ concat (shiftBytesRaw (replicate ?z 0) 0 ?n))"
    by (rule clocks_append [OF clocks_anchor clocks_shiftBytesRaw])
  then have "clocks (8 * ?n) (concat ([[0x2C]] @ shiftBytesRaw (replicate ?z 0) 0 ?n))"
    by simp
  with assms show ?thesis
    by (auto simp: toggleClockCycles_def Let_def)
qed

lemma runCall_clocks:
  assumes "device b" and "validCall c"
  shows "\<exists>b' w. runCall c b = Inr b' \<and> device b' \<and> wire b' = wire b @ w \<and>
           clocks (nat (clocked c)) (concat w) \<and> 0 \<le> clocked c"
proof (cases c)
  case (CallShiftBits tdiBits tmsBits bitLength capture)
  with assms shiftBits_clocks [of b bitLength tdiBits tmsBits capture] show ?thesis by auto
next
  case (CallShiftBytes tdiBytes bitLength)
  with assms shiftBytes_clocks [of b bitLength tdiBytes] show ?thesis by auto
next
  case (CallToggleClockCycles cycles)
  with assms have c: "1 \<le> cycles" by simp
  then have nn: "0 \<le> ceilDiv8 cycles" by (simp add: ceilDiv8_def)
  then have "nat (8 * ceilDiv8 cycles) = 8 * nat (ceilDiv8 cycles)" by simp
  with toggleClockCycles_clocks [OF assms(1) c] CallToggleClockCycles nn show ?thesis by auto
qed

lemma runCalls_clocks:
  assumes "device b" and "\<forall>c \<in> set cs. validCall c"
  shows "\<exists>b' w. runCalls cs b = Inr b' \<and> device b' \<and> wire b' = wire b @ w \<and>
           clocks (nat (sum_list (map clocked cs))) (concat w) \<and>
           0 \<le> sum_list (map clocked cs)"
  using assms
proof (induction cs arbitrary: b)
  case Nil
  then show ?case by (simp add: clocks_Nil)
next
  case (Cons c cs)
  from Cons.prems have v: "validCall c" and vs: "\<forall>c \<in> set cs. validCall c" by simp_all
  from runCall_clocks [OF Cons.prems(1) v] obtain b1 w1 where
    b1: "runCall c b = Inr b1" "device b1" "wire b1 = wire b @ w1"
      "clocks (nat (clocked c)) (concat w1)" "0 \<le> clocked c"
    by blast
  from Cons.IH [OF b1(2) vs] obtain b2 w2 where
    b2: "runCalls cs b1 = Inr b2" "device b2" "wire b2 = wire b1 @ w2"
      "clocks (nat (sum_list (map clocked cs))) (concat w2)" "0 \<le> sum_list (map clocked cs)"
    by blast
  have sum: "nat (clocked c) + nat (sum_list (map clocked cs)) =
      nat (sum_list (map clocked (c # cs)))"
    using b1(5) b2(5) by simp
  from clocks_append [OF b1(4) b2(4)]
  have "clocks (nat (sum_list (map clocked (c # cs)))) (concat (w1 @ w2))"
    unfolding sum by simp
  moreover have "wire b2 = wire b @ (w1 @ w2)" using b1(3) b2(3) by simp
  moreover have "runCalls (c # cs) b = Inr b2" using b1(1) b2(1) by simp
  moreover have "0 \<le> sum_list (map clocked (c # cs))" using b1(5) b2(5) by simp
  ultimately show ?case using b2(2) by blast
qed

text \<open>
  Claim C7, as the code has it. For every sequence of calls of \<open>shiftBits\<close> (with a
  bit count of 0 or more), \<open>shiftBytes\<close> (1 or more) and \<open>toggleClockCycles\<close> (1 or
  more) on a connected adapter, the number of TCK rising edges encoded in the bytes the
  calls put on the wire is the sum of the bit counts of the shifts plus, for each
  \<open>toggleClockCycles(c)\<close>, \<open>c\<close> rounded up to a multiple of 8 (\<open>8 * ceil(c / 8)\<close>).
  So \<open>toggleClockCycles(c)\<close> gives exactly \<open>c\<close> edges when \<open>c\<close> is a multiple of 8, and
  up to seven more otherwise.
\<close>

theorem adapter_clock_edges:
  assumes "device b" and "\<forall>c \<in> set cs. validCall c"
  shows "\<exists>b' w. runCalls cs b = Inr b' \<and> wire b' = wire b @ w \<and>
           int (tckEdges False (concat w)) = sum_list (map clocked cs)"
proof -
  from runCalls_clocks [OF assms] obtain b' w where
    r: "runCalls cs b = Inr b'" "wire b' = wire b @ w"
      "clocks (nat (sum_list (map clocked cs))) (concat w)" "0 \<le> sum_list (map clocked cs)"
    by blast
  from clocks_total [OF r(3), of False] r(4)
  have "int (tckEdges False (concat w)) = sum_list (map clocked cs)" by simp
  with r(1,2) show ?thesis by blast
qed

text \<open>
  Claim C7, as the specification states it, fails on the code: \<open>toggleClockCycles(5)\<close>
  sends two anchor bytes and one byte-shift command with one zero byte, which is eight
  clock edges, not five.
\<close>

theorem toggleClockCycles_counterexample:
  "wire (toggleClockCycles 5 connected) = [[0x2C], [0x2C], [0x81, 0x00]] \<and>
   tckEdges False (concat (wire (toggleClockCycles 5 connected))) = 8 \<and>
   tckEdges False (concat (wire (toggleClockCycles 5 connected))) \<noteq> 5"
proof -
  have w: "wire (toggleClockCycles 5 connected) = [[0x2C], [0x2C], [0x81, 0x00]]"
    by (simp add: toggleClockCycles_def connected_def ceilDiv8_def shiftBytesRaw_def
        rawBatches.simps fillBatch.simps byteAt_def Let_def)
  have e: "tckEdges False (concat [[0x2C], [0x2C], [0x81, 0x00 :: byte]]) = 8"
    by simp
  show ?thesis unfolding w e by simp
qed

text \<open>
  A 19-bit \<open>shiftBits\<close> (16 bits in byte-shift mode, 3 in bit-bang mode), the 24-bit
  \<open>shiftBytes\<close> of scenario D and 16 clock cycles: 59 edges.
\<close>

theorem adapter_clock_edges_witness:
  "device connected \<and> list_all validCall threeCalls \<and>
   (\<exists>b' w. runCalls threeCalls connected = Inr b' \<and> wire b' = wire connected @ w \<and>
      int (tckEdges False (concat w)) = 19 + 24 + 16)"
proof -
  have a: "device connected" by (simp add: connected_def)
  have b: "\<forall>c \<in> set threeCalls. validCall c" by (simp add: threeCalls_def)
  have b': "list_all validCall threeCalls" by (simp add: threeCalls_def)
  have c: "sum_list (map clocked threeCalls) = 19 + 24 + 16"
    by (simp add: threeCalls_def ceilDiv8_def)
  from adapter_clock_edges [OF a b] show ?thesis unfolding c using a b' by blast
qed

subsection \<open>The byte-shift scenario\<close>

text \<open>
  Claim C5, as the code has it. \<open>shiftBytes\<close> with \<open>tdi = [0xAA, 0x55, 0xFF]\<close> and
  24 bits sends four transfers: the anchor byte \<open>0x2C\<close>; the byte-shift command
  \<open>0x82\<close> (\<open>0x80 | 2\<close>) with the first two data bytes \<open>0xAA 0x55\<close>; bits 0 to 6 of
  the last byte in bit-bang mode with TMS=0 (seven times the setup byte \<open>0x3C\<close> and the
  clock byte \<open>0x3D\<close>); and bit 7 of the last byte in bit-bang mode with TMS=1 (setup
  \<open>0x3E\<close> with TCK=0, clock \<open>0x3F\<close> with TCK=1). The last byte is not part of the
  byte-shift command.
\<close>

theorem shiftBytes_scenario:
  "shiftBytes [0xAA, 0x55, 0xFF] 24 connected =
     Inr (connected\<lparr>wire :=
       [[0x2C], [0x82, 0xAA, 0x55],
        [0x3C, 0x3D, 0x3C, 0x3D, 0x3C, 0x3D, 0x3C, 0x3D, 0x3C, 0x3D, 0x3C, 0x3D, 0x3C, 0x3D],
        [0x3E, 0x3F]]\<rparr>)"
  by code_simp

text \<open>
  Claim C5, as the specification states it, fails on the code: the bytes on the wire are
  not \<open>2C 83 AA 55 FF\<close> followed by one bit-bang pair with TMS=1.
\<close>

theorem shiftBytes_scenario_counterexample:
  "shiftBytes [0xAA, 0x55, 0xFF] 24 connected =
     Inr (connected\<lparr>wire :=
       [[0x2C], [0x82, 0xAA, 0x55],
        [0x3C, 0x3D, 0x3C, 0x3D, 0x3C, 0x3D, 0x3C, 0x3D, 0x3C, 0x3D, 0x3C, 0x3D, 0x3C, 0x3D],
        [0x3E, 0x3F]]\<rparr>) \<and>
   concat [[0x2C], [0x82, 0xAA, 0x55],
        [0x3C, 0x3D, 0x3C, 0x3D, 0x3C, 0x3D, 0x3C, 0x3D, 0x3C, 0x3D, 0x3C, 0x3D, 0x3C, 0x3D],
        [0x3E, 0x3F]] \<noteq> [0x2C, 0x83, 0xAA, 0x55, 0xFF, 0x3E, 0x3F :: byte]"
  by code_simp

section \<open>Properties of the MPSSE adapter\<close>

text \<open>
  Claim C6, as the code has it. \<open>writeTDI\<close> with \<open>tdi = [0x81]\<close>, no capture, 8 bits
  and the TMS exit on the last bit buffers exactly two MPSSE commands and sends them in
  one transfer: a bit-mode write for bits 0 to 6, encoded as \<open>0x1B, 6, 0x81\<close> (the data
  byte is the TDI byte as it is, of which the device clocks the low seven bits), and a
  TMS write for bit 7, encoded as \<open>0x4B, 0, 0x81\<close> (TDI bit 7 = 1 in bit 7 of the data
  byte, TMS = 1 in bit 0).
\<close>

theorem writeTDI_tms_exit:
  "writeTDI (Some [0x81]) None 8 True newFTDI =
     (None, newFTDI\<lparr>sent := [[0x1B, 6, 0x81, 0x4B, 0, 0x81]]\<rparr>)"
  by code_simp

text \<open>
  Claim C6, as the specification states it, fails on the code: the data byte of the
  bit-mode write is \<open>0x81\<close>, not \<open>0x01\<close>.
\<close>

theorem writeTDI_tms_exit_counterexample:
  "snd (writeTDI (Some [0x81]) None 8 True newFTDI) =
     newFTDI\<lparr>sent := [[0x1B, 6, 0x81, 0x4B, 0, 0x81]]\<rparr> \<and>
   sent (snd (writeTDI (Some [0x81]) None 8 True newFTDI)) \<noteq>
     [[0x1B, 6, 0x01, 0x4B, 0, 0x81]]"
  by code_simp

section \<open>Properties of the Xilinx programmer\<close>

lemma setStateLoop_reaches:
  "map_option fst (setStateLoop t st acc) = Some t"
  by (cases st; cases t; simp add: setStateLoop.simps)

lemma setState_total: "\<exists>s'. setState t s = Some s' \<and> state s' = t"
proof (cases "state s = t")
  case True
  then show ?thesis by (simp add: setState_def)
next
  case False
  from setStateLoop_reaches [of t "state s" "[]"]
  obtain seq where "setStateLoop t (state s) [] = Some (t, seq)"
    by (cases "setStateLoop t (state s) []") auto
  with False show ?thesis by (simp add: setState_def)
qed


lemma xShiftIR_total:
  "\<exists>tdo s'. xShiftIR instruction readBack endState s = Some (tdo, s') \<and> state s' = endState"
proof -
  obtain s1 where s1: "(if state s \<noteq> SHIFT_IR then setState SHIFT_IR s else Some s) = Some s1"
      "state s1 = SHIFT_IR"
    using setState_total [of SHIFT_IR s] by (cases "state s = SHIFT_IR") auto
  obtain tdo' f where w: "writeTDI (Some [instruction]) (if readBack then Some [0] else None) 6
      (endState \<noteq> SHIFT_IR) (ftdiDriver s1) = (tdo', f)"
    by (cases "writeTDI (Some [instruction]) (if readBack then Some [0] else None) 6
      (endState \<noteq> SHIFT_IR) (ftdiDriver s1)")
  show ?thesis
  proof (cases "endState = SHIFT_IR")
    case True
    with s1 w show ?thesis by (simp add: xShiftIR_def Let_def)
  next
    case ne: False
    show ?thesis
    proof (cases "endState = EXIT1_IR")
      case True
      with s1 w show ?thesis by (simp add: xShiftIR_def Let_def)
    next
      case False
      obtain s4 where "setState endState (s1\<lparr>ftdiDriver := f, state := EXIT1_IR\<rparr>) = Some s4"
          "state s4 = endState"
        using setState_total by blast
      with s1 w ne False show ?thesis by (simp add: xShiftIR_def Let_def)
    qed
  qed
qed

lemma xShiftDR_total:
  "\<exists>tdo s'. xShiftDR tdi bitLength readBack endState s = Some (tdo, s') \<and> state s' = endState"
proof -
  obtain s1 where s1: "(if state s \<noteq> SHIFT_DR then setState SHIFT_DR s else Some s) = Some s1"
      "state s1 = SHIFT_DR"
    using setState_total [of SHIFT_DR s] by (cases "state s = SHIFT_DR") auto
  obtain tdo' f where w: "writeTDI (Some tdi)
      (if readBack then Some (replicate (nat (ceilDiv8 bitLength)) 0) else None) bitLength
      (endState \<noteq> SHIFT_DR) (ftdiDriver s1) = (tdo', f)"
    by (cases "writeTDI (Some tdi)
      (if readBack then Some (replicate (nat (ceilDiv8 bitLength)) 0) else None) bitLength
      (endState \<noteq> SHIFT_DR) (ftdiDriver s1)")
  show ?thesis
  proof (cases "endState = SHIFT_DR")
    case True
    with s1 w show ?thesis by (simp add: xShiftDR_def Let_def)
  next
    case ne: False
    show ?thesis
    proof (cases "endState = EXIT1_DR")
      case True
      with s1 w show ?thesis by (simp add: xShiftDR_def Let_def)
    next
      case False
      obtain s4 where "setState endState (s1\<lparr>ftdiDriver := f, state := EXIT1_DR\<rparr>) = Some s4"
          "state s4 = endState"
        using setState_total by blast
      with s1 w ne False show ?thesis by (simp add: xShiftDR_def Let_def)
    qed
  qed
qed

lemma doOp_total: "\<exists>s'. doOp op s = Some s'"
proof (cases op)
  case OpReset
  then show ?thesis by simp
next
  case (OpShiftIR i r e)
  with xShiftIR_total [of i r e s] show ?thesis by auto
next
  case (OpShiftDR t n r e)
  with xShiftDR_total [of t n r e s] show ?thesis by auto
next
  case (OpSetState t)
  with setState_total [of t s] show ?thesis by auto
next
  case (OpToggleClk c)
  then show ?thesis by simp
qed

lemma runOps_total: "\<exists>s'. runOps ops s = Some s'"
proof (induction ops arbitrary: s)
  case Nil
  show ?case by simp
next
  case (Cons op ops)
  from doOp_total [of op s] obtain s1 where "doOp op s = Some s1" by blast
  with Cons [of s1] show ?case by simp
qed

lemma runOps_append:
  "runOps (a @ b) s = (case runOps a s of None \<Rightarrow> None | Some s1 \<Rightarrow> runOps b s1)"
  by (induction a arbitrary: s) (simp_all split: option.splits)

lemma runOps_append_Some:
  "runOps a s = Some s1 \<Longrightarrow> runOps b s1 = r \<Longrightarrow> runOps (a @ b) s = r"
  by (simp add: runOps_append)

lemma pollInit_polls:
  "\<exists>initDone s' k. pollInit n s = Some (initDone, s') \<and> k \<le> n \<and> (0 < n \<longrightarrow> 1 \<le> k) \<and>
     (initDone \<longrightarrow> 1 \<le> k) \<and> (initDone \<or> k = n) \<and>
     runOps (replicate k (OpShiftIR BYPASS True RUN_TEST_IDLE)) s = Some s' \<and>
     (\<forall>j<k. \<exists>sj st sj'.
        runOps (replicate j (OpShiftIR BYPASS True RUN_TEST_IDLE)) s = Some sj \<and>
        xShiftIR BYPASS True RUN_TEST_IDLE sj = Some (st, sj') \<and>
        (statusBit st 0 \<longleftrightarrow> initDone \<and> j + 1 = k))"
proof (induction n arbitrary: s)
  case 0
  show ?case by (intro exI [of _ False] exI [of _ s] exI [of _ 0]) simp
next
  case (Suc n)
  let ?P = "OpShiftIR BYPASS True RUN_TEST_IDLE"
  from xShiftIR_total [of BYPASS True RUN_TEST_IDLE s]
  obtain status s1 where x: "xShiftIR BYPASS True RUN_TEST_IDLE s = Some (status, s1)" by blast
  then have op: "doOp ?P s = Some s1" by simp
  have r0: "runOps (replicate 0 ?P) s = Some s" by simp
  show ?case
  proof (cases "statusBit status 0")
    case True
    with x have "pollInit (Suc n) s = Some (True, s1)" by simp
    moreover have "runOps [?P] s = Some s1"
      by (simp only: runOps.simps op option.simps)
    then have "runOps (replicate 1 ?P) s = Some s1"
      by (simp only: replicate.simps One_nat_def)
    moreover have "\<forall>j<1. \<exists>sj st sj'. runOps (replicate j ?P) s = Some sj \<and>
        xShiftIR BYPASS True RUN_TEST_IDLE sj = Some (st, sj') \<and>
        (statusBit st 0 \<longleftrightarrow> True \<and> j + 1 = (1::nat))"
      using r0 x True by auto
    ultimately show ?thesis by (intro exI [of _ True] exI [of _ s1] exI [of _ 1]) simp
  next
    case False
    from Suc [of s1] obtain initDone s' k where
      ih: "pollInit n s1 = Some (initDone, s')" "k \<le> n" "initDone \<or> k = n"
        "initDone \<longrightarrow> 1 \<le> k"
        "runOps (replicate k ?P) s1 = Some s'"
        "\<forall>j<k. \<exists>sj st sj'. runOps (replicate j ?P) s1 = Some sj \<and>
           xShiftIR BYPASS True RUN_TEST_IDLE sj = Some (st, sj') \<and>
           (statusBit st 0 \<longleftrightarrow> initDone \<and> j + 1 = k)"
      by blast
    from x False ih(1) have run: "pollInit (Suc n) s = Some (initDone, s')" by simp
    have step: "runOps (replicate (Suc j) ?P) s = runOps (replicate j ?P) s1" for j
      by (simp only: replicate.simps runOps.simps op option.simps)
    have all: "runOps (replicate (Suc k) ?P) s = Some s'"
      by (simp only: step ih(5))
    have polls: "\<exists>sj st sj'. runOps (replicate j ?P) s = Some sj \<and>
           xShiftIR BYPASS True RUN_TEST_IDLE sj = Some (st, sj') \<and>
           (statusBit st 0 \<longleftrightarrow> initDone \<and> j + 1 = Suc k)" if "j < Suc k" for j
    proof (cases j)
      case 0
      have "\<not> (initDone \<and> 0 + 1 = Suc k)" using ih(4) by auto
      with r0 x False show ?thesis unfolding 0 by blast
    next
      case (Suc i)
      with that have "i < k" by simp
      with ih(6) obtain sj st sj' where "runOps (replicate i ?P) s1 = Some sj"
          "xShiftIR BYPASS True RUN_TEST_IDLE sj = Some (st, sj')"
          "statusBit st 0 \<longleftrightarrow> initDone \<and> i + 1 = k"
        by blast
      then show ?thesis unfolding Suc step by auto
    qed
    from run all polls ih(2,3) show ?thesis
      by (intro exI [of _ initDone] exI [of _ s'] exI [of _ "Suc k"]) auto
  qed
qed

lemma sendChunks_ops:
  "sendChunks configData n i s =
     runOps (map (\<lambda>j. OpShiftDR (chunkOf configData j) (int (length (chunkOf configData j)) * 8)
                        False (if j = n - 1 then UPDATE_DR else SHIFT_DR)) [i..<n]) s"
proof (induction "n - i" arbitrary: i s)
  case 0
  then have "\<not> i < n" by simp
  then show ?case by (subst sendChunks.simps) simp
next
  case (Suc d)
  then have lt: "i < n" and d: "d = n - (i + 1)" by simp_all
  have upt: "[i..<n] = i # [i + 1..<n]" using lt by (simp add: upt_conv_Cons)
  show ?case
    using lt Suc.hyps(1) [OF d]
    by (subst sendChunks.simps) (auto simp: upt Let_def split: option.splits)
qed

text \<open>
  \<open>reverseByte\<close> mirrors a byte, and a chunk is a slice of 4096 bytes.
\<close>

lemma reverseByte_mirror: "reverseByte b = word_reverse b"
proof -
  have "\<forall>k \<in> set [0..<256]. reverseByte (of_nat k) = word_reverse (of_nat k :: byte)"
    by code_simp
  moreover have "unat b \<in> set [0..<256]"
    using unsigned_less [of b, where ?'a = nat] by simp
  ultimately have "reverseByte (of_nat (unat b)) = word_reverse (of_nat (unat b) :: byte)"
    by blast
  then show ?thesis by simp
qed

lemma bitReverse_mirror: "bitReverse data = map word_reverse data"
  by (simp add: bitReverse_def reverseByte_mirror)

lemma chunkOf_slice: "chunkOf configData i = take 4096 (drop (i * 4096) configData)"
  by (simp add: chunkOf_def Let_def min_def)

lemma sendChunks_payloadShifts:
  "sendChunks (bitReverse bitstream) ((length (bitReverse bitstream) + 4095) div 4096) 0 s =
     runOps (payloadShifts bitstream) s"
proof -
  let ?n = "(length bitstream + 4095) div 4096"
  let ?cfg = "bitReverse bitstream"
  have "map (\<lambda>j. OpShiftDR (chunkOf ?cfg j) (int (length (chunkOf ?cfg j)) * 8)
                    False (if j = ?n - 1 then UPDATE_DR else SHIFT_DR)) [0..<?n] =
        payloadShifts bitstream"
    unfolding payloadShifts_def Let_def chunkOf_slice bitReverse_mirror
    by (auto simp: mult.commute)
  moreover have "length ?cfg = length bitstream" by (simp add: bitReverse_def)
  ultimately show ?thesis by (simp add: sendChunks_ops)
qed

lemma take_codeSequence:
  assumes "j \<le> k"
  shows "take (2 + j) (codeSequence bitstream k) =
     [OpReset, OpShiftIR JPROGRAM False RUN_TEST_IDLE] @
     replicate j (OpShiftIR BYPASS True RUN_TEST_IDLE)"
  using assms by (simp add: codeSequence_def min_def)

lemma programSRAM_run:
  "\<exists>k initDone done s' sv status.
     programSRAM bitstream s = Some (initDone, done, s') \<and>
     1 \<le> k \<and> k \<le> 100 \<and> (initDone \<or> k = 100) \<and>
     (\<forall>j<k. \<exists>sj st sj'.
        runOps (take (2 + j) (codeSequence bitstream k)) s = Some sj \<and>
        xShiftIR BYPASS True RUN_TEST_IDLE sj = Some (st, sj') \<and>
        (statusBit st 0 \<longleftrightarrow> initDone \<and> j + 1 = k)) \<and>
     runOps (codeSequence bitstream k) s = Some s' \<and>
     runOps (butlast (codeSequence bitstream k)) s = Some sv \<and>
     xShiftIR BYPASS True RUN_TEST_IDLE sv = Some (status, s') \<and>
     done = statusBit status 5"
proof -
  let ?cfg = "bitReverse bitstream"
  let ?poll = "OpShiftIR BYPASS True RUN_TEST_IDLE"
  let ?s1 = "goTestLogicReset s"
  obtain t2 s2 where x2: "xShiftIR JPROGRAM False RUN_TEST_IDLE ?s1 = Some (t2, s2)"
    using xShiftIR_total by blast
  obtain initDone s3 k where p3: "pollInit 100 s2 = Some (initDone, s3)" "k \<le> 100" "1 \<le> k"
      "initDone \<or> k = 100" "runOps (replicate k ?poll) s2 = Some s3"
      "\<forall>j<k. \<exists>sj st sj'. runOps (replicate j ?poll) s2 = Some sj \<and>
         xShiftIR BYPASS True RUN_TEST_IDLE sj = Some (st, sj') \<and>
         (statusBit st 0 \<longleftrightarrow> initDone \<and> j + 1 = k)"
    using pollInit_polls [of 100 s2] by auto
  obtain s4 where s4: "setState RUN_TEST_IDLE s3 = Some s4"
    using setState_total by blast
  obtain t5 s5 where x5: "xShiftIR CFG_IN False RUN_TEST_IDLE (toggleClk 120000 s4) = Some (t5, s5)"
    using xShiftIR_total by blast
  obtain s6 where s6: "setState SELECT_DR_SCAN s5 = Some s6"
    using setState_total by blast
  obtain s7 where s7: "runOps (payloadShifts bitstream) s6 = Some s7"
    using runOps_total by blast
  obtain s8 where s8: "setState RUN_TEST_IDLE s7 = Some s8"
    using setState_total by blast
  obtain t9 s9 where x9: "xShiftIR JSTART False UPDATE_IR s8 = Some (t9, s9)"
    using xShiftIR_total by blast
  let ?sv = "goTestLogicReset (toggleClk 2000 s9)"
  obtain status s10 where x10: "xShiftIR BYPASS True RUN_TEST_IDLE ?sv = Some (status, s10)"
    using xShiftIR_total by blast
  have run: "programSRAM bitstream s = Some (initDone, statusBit status 5, s10)"
    by (simp add: programSRAM_def Let_def x2 p3(1) s4 x5 s6 sendChunks_payloadShifts s7 s8 x9 x10)
  let ?A1 = "[OpReset, OpShiftIR JPROGRAM False RUN_TEST_IDLE]"
  let ?A3 = "[OpSetState RUN_TEST_IDLE, OpToggleClk 120000, OpShiftIR CFG_IN False RUN_TEST_IDLE,
      OpSetState SELECT_DR_SCAN]"
  let ?A5 = "[OpSetState RUN_TEST_IDLE, OpShiftIR JSTART False UPDATE_IR, OpToggleClk 2000, OpReset]"
  have a1: "runOps ?A1 s = Some s2" by (simp add: x2)
  have a3: "runOps ?A3 s3 = Some s6" by (simp add: s4 x5 s6)
  have a5: "runOps ?A5 s7 = Some ?sv" by (simp add: s8 x9)
  have last: "runOps [?poll] ?sv = Some s10" by (simp add: x10)
  let ?pre = "?A1 @ replicate k ?poll @ ?A3 @ payloadShifts bitstream @ ?A5"
  have pre: "runOps ?pre s = Some ?sv"
    by (intro runOps_append_Some [OF a1] runOps_append_Some [OF p3(5)]
        runOps_append_Some [OF a3] runOps_append_Some [OF s7] a5)
  have seq: "codeSequence bitstream k = ?pre @ [?poll]"
    by (simp add: codeSequence_def)
  have all: "runOps (codeSequence bitstream k) s = Some s10"
    unfolding seq by (rule runOps_append_Some [OF pre last])
  have bl: "runOps (butlast (codeSequence bitstream k)) s = Some ?sv"
    unfolding seq by (simp only: butlast_snoc pre)
  have polls: "\<exists>sj st sj'.
        runOps (take (2 + j) (codeSequence bitstream k)) s = Some sj \<and>
        xShiftIR BYPASS True RUN_TEST_IDLE sj = Some (st, sj') \<and>
        (statusBit st 0 \<longleftrightarrow> initDone \<and> j + 1 = k)" if "j < k" for j
  proof -
    from p3(6) that obtain sj st sj' where
      j: "runOps (replicate j ?poll) s2 = Some sj"
         "xShiftIR BYPASS True RUN_TEST_IDLE sj = Some (st, sj')"
         "statusBit st 0 \<longleftrightarrow> initDone \<and> j + 1 = k"
      by blast
    from that have "j \<le> k" by simp
    then have "runOps (take (2 + j) (codeSequence bitstream k)) s = Some sj"
      by (simp only: take_codeSequence runOps_append_Some [OF a1 j(1)])
    with j(2,3) show ?thesis by blast
  qed
  from run p3(2,3,4) polls all bl x10 show ?thesis by blast
qed

text \<open>
  Claim C4, as the code has it. For every configuration payload and every behaviour of
  the device, \<open>programSRAM\<close> completes, and what it does is exactly the sequence of
  operations \<open>codeSequence\<close>: TAP reset, shift-IR JPROGRAM, \<open>k\<close> BYPASS polls with
  \<open>1 \<le> k \<le> 100\<close>, the move to IDLE and 120000 clock cycles, shift-IR CFG_IN, a move
  to SELECT_DR_SCAN, \<open>N = ceil(length / 4096)\<close> DR shifts of consecutive 4096-byte
  slices of the bit-reversed payload of which only the last ends in UPDATE_DR and the
  others end in SHIFT_DR, the move to IDLE, shift-IR JSTART ending in UPDATE_IR, 2000
  clock cycles, TAP reset, and a last BYPASS read whose bit 5 is the DONE status
  reported.

  The number of polls is fixed by what the device answers. Poll \<open>j + 1\<close> is the BYPASS
  read made in the state that the first \<open>2 + j\<close> operations of the sequence leave; its
  status has bit 0 set exactly when it is the last poll and INIT is reported. So every
  poll before the last reads bit 0 clear, the loop leaves at the first poll that reads
  it set, and INIT is not reported only when all 100 polls read it clear.

  The payload sent is the bit-reversed one: \<open>bitReverse\<close> mirrors every byte, which is
  what \<open>payloadShifts\<close>, and with it \<open>codeSequence\<close>, is written with.

  With the mocked device that answers \<open>0x21\<close> after JPROGRAM and \<open>0x20\<close> after JSTART,
  one poll is made, INIT and DONE are both reported, and programming completes.
\<close>

theorem programSRAM_sequence:
  "(\<exists>k initDone done s' sv status.
      programSRAM bitstream s = Some (initDone, done, s') \<and>
      1 \<le> k \<and> k \<le> 100 \<and> (initDone \<or> k = 100) \<and>
      (\<forall>j<k. \<exists>sj st sj'.
         runOps (take (2 + j) (codeSequence bitstream k)) s = Some sj \<and>
         xShiftIR BYPASS True RUN_TEST_IDLE sj = Some (st, sj') \<and>
         (statusBit st 0 \<longleftrightarrow> initDone \<and> j + 1 = k)) \<and>
      runOps (codeSequence bitstream k) s = Some s' \<and>
      runOps (butlast (codeSequence bitstream k)) s = Some sv \<and>
      xShiftIR BYPASS True RUN_TEST_IDLE sv = Some (status, s') \<and>
      done = statusBit status 5) \<and>
   bitReverse bitstream = map word_reverse bitstream \<and>
   length (payloadShifts bitstream) = (length bitstream + 4095) div 4096 \<and>
   map_option (\<lambda>(initDone, done, s'). (initDone, done)) (programSRAM [0x01] mockedDevice) =
     Some (True, True) \<and>
   map_option (\<lambda>(initDone, done, s'). s') (programSRAM [0x01] mockedDevice) =
     runOps (codeSequence [0x01] 1) mockedDevice"
proof -
  have a: "length (payloadShifts bitstream) = (length bitstream + 4095) div 4096"
    by (simp add: payloadShifts_def Let_def)
  have b: "map_option (\<lambda>(initDone, done, s'). (initDone, done)) (programSRAM [0x01] mockedDevice) =
     Some (True, True)"
    by code_simp
  have c: "map_option (\<lambda>(initDone, done, s'). s') (programSRAM [0x01] mockedDevice) =
     runOps (codeSequence [0x01] 1) mockedDevice"
    by code_simp
  from programSRAM_run [of bitstream s] a b c bitReverse_mirror [of bitstream]
  show ?thesis by blast
qed

text \<open>
  The mocked device and a payload of one byte \<open>0x01\<close>: the first poll reads bit 0 set,
  so the theorem leaves one poll and INIT reported; the byte goes out as \<open>0x80\<close> in
  one DR shift.
\<close>

theorem programSRAM_sequence_witness:
  "\<exists>initDone done s'.
     programSRAM [0x01] mockedDevice = Some (initDone, done, s') \<and> initDone \<and> done \<and>
     runOps (codeSequence [0x01] 1) mockedDevice = Some s' \<and>
     bitReverse [0x01] = [0x80] \<and> length (payloadShifts [0x01]) = 1"
proof -
  let ?poll = "OpShiftIR BYPASS True RUN_TEST_IDLE"
  from programSRAM_sequence [of "[0x01]" mockedDevice]
  obtain k initDone don s' sv status where
    r: "programSRAM [0x01] mockedDevice = Some (initDone, don, s')"
       "1 \<le> k"
       "\<forall>j<k. \<exists>sj st sj'.
          runOps (take (2 + j) (codeSequence [0x01] k)) mockedDevice = Some sj \<and>
          xShiftIR BYPASS True RUN_TEST_IDLE sj = Some (st, sj') \<and>
          (statusBit st 0 \<longleftrightarrow> initDone \<and> j + 1 = k)"
       "runOps (codeSequence [0x01] k) mockedDevice = Some s'"
       "runOps (butlast (codeSequence [0x01] k)) mockedDevice = Some sv"
       "xShiftIR BYPASS True RUN_TEST_IDLE sv = Some (status, s')"
       "don = statusBit status 5"
    and m: "bitReverse [0x01] = map word_reverse [0x01 :: byte]"
       "length (payloadShifts [0x01]) = (length [0x01 :: byte] + 4095) div 4096"
    by blast
  from r(2) have "0 < k" by simp
  from r(3) [rule_format, OF this] obtain sj st sj' where
    p: "runOps (take (2 + 0) (codeSequence [0x01] k)) mockedDevice = Some sj"
       "xShiftIR BYPASS True RUN_TEST_IDLE sj = Some (st, sj')"
       "statusBit st 0 \<longleftrightarrow> initDone \<and> 0 + 1 = k"
    by blast
  have t: "take (2 + 0) (codeSequence [0x01] k) = [OpReset, OpShiftIR JPROGRAM False RUN_TEST_IDLE]"
    by (simp add: codeSequence_def)
  have e: "statusBit (fst (the (xShiftIR BYPASS True RUN_TEST_IDLE
      (the (runOps [OpReset, OpShiftIR JPROGRAM False RUN_TEST_IDLE] mockedDevice))))) 0"
    by code_simp
  from p(1,2) e have "statusBit st 0" unfolding t by simp
  with p(3) have k: "initDone" "k = 1" by auto
  have d: "statusBit (fst (the (xShiftIR BYPASS True RUN_TEST_IDLE
      (the (runOps (butlast (codeSequence [0x01] 1)) mockedDevice))))) 5"
    by code_simp
  from r(5,6) d have "statusBit status 5" unfolding k(2) by simp
  with r(7) have "don" by simp
  moreover have "map word_reverse [0x01 :: byte] = [0x80]" by code_simp
  ultimately have "programSRAM [0x01] mockedDevice = Some (initDone, don, s') \<and> initDone \<and> don \<and>
     runOps (codeSequence [0x01] 1) mockedDevice = Some s' \<and>
     bitReverse [0x01] = [0x80] \<and> length (payloadShifts [0x01]) = 1"
    using r(1,4) k m by simp
  then show ?thesis by blast
qed

text \<open>
  Claim C4, as the specification states it, fails on the code. For a payload of one
  byte and the mocked device, the sequence of scenario F (with the one poll that the
  device's answer allows) goes from CFG_IN to the chunk shift with one TMS command of
  three bits (\<open>4B 02 01\<close>); the code moves to SELECT_DR_SCAN first, which is a TMS
  command of one bit (\<open>4B 00 03\<close>), and the chunk shift then adds one of two bits
  (\<open>4B 01 00\<close>).
\<close>

theorem programSRAM_sequence_counterexample:
  "map_option (\<lambda>(initDone, done, s'). sent (ftdiDriver s')) (programSRAM [0x01] mockedDevice) =
     Some [[0x4B, 5, 0x7F], [0x4B, 4, 0x06], [0x1B, 4, 0x0B, 0x4B, 0, 0x01], [0x4B, 1, 0x01],
           [0x4B, 3, 0x03], [0x3B, 4, 0x3F, 0x6B, 0, 0x81, 0x87], [0x4B, 1, 0x01],
           [0x8F, 0x97, 0x3A], [0x4B, 3, 0x03], [0x1B, 4, 0x05, 0x4B, 0, 0x01], [0x4B, 1, 0x01],
           [0x4B, 0, 0x03], [0x4B, 1, 0x00], [0x1B, 6, 0x80, 0x4B, 0, 0x81], [0x4B, 0, 0x03],
           [0x4B, 0, 0x00], [0x4B, 3, 0x03], [0x1B, 4, 0x0C, 0x4B, 0, 0x01], [0x4B, 0, 0x03],
           [0x8F, 0xF9, 0x00], [0x4B, 5, 0x7F], [0x4B, 4, 0x06],
           [0x3B, 4, 0x3F, 0x6B, 0, 0x81, 0x87], [0x4B, 1, 0x01]] \<and>
   map_option (\<lambda>s'. sent (ftdiDriver s')) (runOps (specSequence [0x01] 1) mockedDevice) =
     Some [[0x4B, 5, 0x7F], [0x4B, 4, 0x06], [0x1B, 4, 0x0B, 0x4B, 0, 0x01], [0x4B, 1, 0x01],
           [0x4B, 3, 0x03], [0x3B, 4, 0x3F, 0x6B, 0, 0x81, 0x87], [0x4B, 1, 0x01],
           [0x8F, 0x97, 0x3A], [0x4B, 3, 0x03], [0x1B, 4, 0x05, 0x4B, 0, 0x01], [0x4B, 1, 0x01],
           [0x4B, 2, 0x01], [0x1B, 6, 0x80, 0x4B, 0, 0x81], [0x4B, 0, 0x03],
           [0x4B, 0, 0x00], [0x4B, 3, 0x03], [0x1B, 4, 0x0C, 0x4B, 0, 0x01], [0x4B, 0, 0x03],
           [0x8F, 0xF9, 0x00], [0x4B, 5, 0x7F], [0x4B, 4, 0x06],
           [0x3B, 4, 0x3F, 0x6B, 0, 0x81, 0x87], [0x4B, 1, 0x01]] \<and>
   map_option (\<lambda>(initDone, done, s'). s') (programSRAM [0x01] mockedDevice) \<noteq>
     runOps (specSequence [0x01] 1) mockedDevice"
  by code_simp

end
